theory Spec2Isabelle
  imports Main
begin

section \<open>Memory, exceptions and the element type\<close>

text \<open>
  The container of \<^verbatim>\<open>vector.h\<close> manages a raw buffer by hand, so the model has an
  explicit heap. An address is a natural number and \<open>0\<close> is \<^verbatim>\<open>nullptr\<close>. A block
  of the heap is a list of slots; a slot is \<open>None\<close> while it is raw memory and
  \<open>Some x\<close> while it holds a constructed element with value \<open>x\<close>. The block at
  address \<open>p > 0\<close> is entry \<open>p - 1\<close> of the heap list, a released block is the
  entry \<open>None\<close>, and an allocation appends an entry, so a new address is never
  one that is in use.

  A call has one of three outcomes: it returns a result and a state, it throws
  an exception and leaves a state behind, or its behaviour is undefined (a read
  or write outside a block, a read of a raw slot, a release of an address that
  is not allocated).

  \<open>faults\<close> is the schedule of failures: every operation that can throw
  (\<^verbatim>\<open>operator new\<close>, a copy construction or assignment of an element) takes the
  head of the list and throws when it is \<open>True\<close>; on the empty schedule nothing
  throws. Every pattern of failures is some schedule.
\<close>

type_synonym addr = nat

datatype exn = Bad_alloc | Copy_failed

datatype ('r, 's) outcome = Return 'r 's | Throw exn 's | Undefined

record elem_type =
  sizeof_T :: nat
  trivially_copy_constructible :: bool

record 'a world =
  heap :: "'a option list option list"
  faults :: "bool list"

text \<open>\<^verbatim>\<open>size_t\<close> has 64 bits: arithmetic on it is taken modulo \<open>SIZE_MOD\<close>.\<close>

definition SIZE_MOD :: nat where
  "SIZE_MOD = 2 ^ 64"

definition block_at :: "'a world \<Rightarrow> addr \<Rightarrow> 'a option list option" where
  "block_at w p = (if p = 0 \<or> length (heap w) < p then None else heap w ! (p - 1))"

definition set_block :: "addr \<Rightarrow> 'a option list option \<Rightarrow> 'a world \<Rightarrow> 'a world" where
  "set_block p b w = (if p = 0 then w else w\<lparr>heap := (heap w)[p - 1 := b]\<rparr>)"

definition block_len :: "'a world \<Rightarrow> addr \<Rightarrow> nat" where
  "block_len w p = (case block_at w p of None \<Rightarrow> 0 | Some blk \<Rightarrow> length blk)"

definition next_fault :: "'a world \<Rightarrow> bool \<times> 'a world" where
  "next_fault w = (case faults w of [] \<Rightarrow> (False, w) | f # fs \<Rightarrow> (f, w\<lparr>faults := fs\<rparr>))"

text \<open>
  An operation of the element type \<open>T\<close> that runs user code. For a trivially copy
  constructible \<open>T\<close> there is no user code to throw.
\<close>

definition elem_op :: "elem_type \<Rightarrow> 'a world \<Rightarrow> bool \<times> 'a world" where
  "elem_op T w = (if trivially_copy_constructible T then (False, w) else next_fault w)"

text \<open>
  \<^verbatim>\<open>operator new(bytes)\<close>: throws \<^verbatim>\<open>std::bad_alloc\<close> or returns a new block of
  \<open>bytes\<close> bytes, which holds \<open>bytes div sizeof(T)\<close> raw slots.
\<close>

definition operator_new :: "elem_type \<Rightarrow> nat \<Rightarrow> 'a world \<Rightarrow> (addr, 'a world) outcome" where
  "operator_new T bytes w =
     (case next_fault w of
        (True, w') \<Rightarrow> Throw Bad_alloc w'
      | (False, w') \<Rightarrow>
          Return (Suc (length (heap w')))
            (w'\<lparr>heap := heap w' @ [Some (replicate (bytes div sizeof_T T) None)]\<rparr>))"

text \<open>\<^verbatim>\<open>operator delete(p)\<close>: nothing for \<^verbatim>\<open>nullptr\<close>, else releases the block.\<close>

definition operator_delete :: "addr \<Rightarrow> 'a world \<Rightarrow> (unit, 'a world) outcome" where
  "operator_delete p w =
     (if p = 0 then Return () w
      else case block_at w p of
             None \<Rightarrow> Undefined
           | Some blk \<Rightarrow> Return () (set_block p None w))"

text \<open>Reading \<^verbatim>\<open>p[i]\<close>: \<open>None\<close> when the slot is outside the block or raw.\<close>

definition load :: "addr \<Rightarrow> nat \<Rightarrow> 'a world \<Rightarrow> 'a option" where
  "load p i w =
     (case block_at w p of
        None \<Rightarrow> None
      | Some blk \<Rightarrow> if i < length blk then blk ! i else None)"

text \<open>\<^verbatim>\<open>new(p + i) T(x)\<close>: copy construction of \<open>x\<close> into slot \<open>i\<close> of block \<open>p\<close>.\<close>

definition placement_new :: "elem_type \<Rightarrow> addr \<Rightarrow> nat \<Rightarrow> 'a \<Rightarrow> 'a world \<Rightarrow> (unit, 'a world) outcome" where
  "placement_new T p i x w =
     (case block_at w p of
        None \<Rightarrow> Undefined
      | Some blk \<Rightarrow>
          if length blk \<le> i then Undefined
          else case elem_op T w of
                 (True, w') \<Rightarrow> Throw Copy_failed w'
               | (False, w') \<Rightarrow> Return () (set_block p (Some (blk[i := Some x])) w'))"

text \<open>\<^verbatim>\<open>T tmp = x\<close>: copy construction of a local object.\<close>

definition copy_local :: "elem_type \<Rightarrow> 'a \<Rightarrow> 'a world \<Rightarrow> ('a, 'a world) outcome" where
  "copy_local T x w =
     (case elem_op T w of
        (True, w') \<Rightarrow> Throw Copy_failed w'
      | (False, w') \<Rightarrow> Return x w')"

text \<open>\<^verbatim>\<open>p[i].~T()\<close>: destruction of the element in slot \<open>i\<close>, which becomes raw.\<close>

definition destroy_at :: "addr \<Rightarrow> nat \<Rightarrow> 'a world \<Rightarrow> (unit, 'a world) outcome" where
  "destroy_at p i w =
     (case block_at w p of
        None \<Rightarrow> Undefined
      | Some blk \<Rightarrow>
          if i < length blk \<and> blk ! i \<noteq> None
          then Return () (set_block p (Some (blk[i := None])) w)
          else Undefined)"

text \<open>
  \<^verbatim>\<open>std::swap(p[i], p[j])\<close> on two elements, as the library does it:
  \<^verbatim>\<open>T tmp(a); a = b; b = tmp;\<close>. Each of the three steps can throw; an
  assignment that throws is taken to leave its target as it was.
\<close>

definition std_swap :: "elem_type \<Rightarrow> addr \<Rightarrow> nat \<Rightarrow> nat \<Rightarrow> 'a world \<Rightarrow> (unit, 'a world) outcome" where
  "std_swap T p i j w =
     (case block_at w p of
        None \<Rightarrow> Undefined
      | Some blk \<Rightarrow>
          if length blk \<le> i \<or> length blk \<le> j \<or> blk ! i = None \<or> blk ! j = None then Undefined
          else case elem_op T w of
                 (True, w1) \<Rightarrow> Throw Copy_failed w1
               | (False, w1) \<Rightarrow>
                   (case elem_op T w1 of
                      (True, w2) \<Rightarrow> Throw Copy_failed w2
                    | (False, w2) \<Rightarrow>
                        (case elem_op T w2 of
                           (True, w3) \<Rightarrow>
                             Throw Copy_failed (set_block p (Some (blk[i := blk ! j])) w3)
                         | (False, w3) \<Rightarrow>
                             Return () (set_block p (Some (blk[i := blk ! j, j := blk ! i])) w3))))"

text \<open>
  \<^verbatim>\<open>memcpy(dst, src, nbytes)\<close>, in whole elements: \<open>nbytes div sizeof(T)\<close>
  slots go from the front of \<open>src\<close> to the front of \<open>dst\<close>. Bytes that are not a
  whole element, and a range that leaves either block, are undefined.
\<close>

definition memcpy :: "elem_type \<Rightarrow> addr \<Rightarrow> addr \<Rightarrow> nat \<Rightarrow> 'a world \<Rightarrow> (unit, 'a world) outcome" where
  "memcpy T dst src nbytes w =
     (case block_at w src of
        None \<Rightarrow> Undefined
      | Some sb \<Rightarrow>
          (case block_at w dst of
             None \<Rightarrow> Undefined
           | Some db \<Rightarrow>
               (let k = nbytes div sizeof_T T in
                if nbytes mod sizeof_T T = 0 \<and> k \<le> length sb \<and> k \<le> length db
                then Return () (set_block dst (Some (take k sb @ drop k db)) w)
                else Undefined)))"

section \<open>The container\<close>

record vector =
  data_m :: addr
  size_m :: nat
  capacity_m :: nat

text \<open>An iterator is a pointer: the block it points into and the offset in elements.\<close>

type_synonym iterator = "addr \<times> int"

text \<open>\<^verbatim>\<open>vector() noexcept = default\<close>\<close>

definition default_ctor :: vector where
  "default_ctor = \<lparr>data_m = 0, size_m = 0, capacity_m = 0\<rparr>"

text \<open>\<^verbatim>\<open>allocate_data(n)\<close>: \<^verbatim>\<open>operator new(n * sizeof(T))\<close>, the product in \<^verbatim>\<open>size_t\<close>.\<close>

definition allocate_data :: "elem_type \<Rightarrow> nat \<Rightarrow> 'a world \<Rightarrow> (addr, 'a world) outcome" where
  "allocate_data T n w = operator_new T ((n * sizeof_T T) mod SIZE_MOD) w"

text \<open>\<^verbatim>\<open>destroy_elements(data, size)\<close>: \<^verbatim>\<open>while (size > 0) data[--size].~T();\<close>\<close>

fun destroy_elements :: "addr \<Rightarrow> nat \<Rightarrow> 'a world \<Rightarrow> (unit, 'a world) outcome" where
  "destroy_elements p 0 w = Return () w"
| "destroy_elements p (Suc n) w =
     (case destroy_at p n w of
        Return u w' \<Rightarrow> destroy_elements p n w'
      | Throw e w' \<Rightarrow> Throw e w'
      | Undefined \<Rightarrow> Undefined)"

text \<open>
  The loop of \<^verbatim>\<open>copy_elements\<close> for an element type that is not trivially copy
  constructible, from index \<open>i\<close> with \<open>k = size - i\<close> iterations left. When the
  copy at index \<open>i\<close> throws, the handler destroys the \<open>i\<close> elements already
  constructed in \<open>dst\<close> and throws again.
\<close>

fun copy_loop :: "elem_type \<Rightarrow> addr \<Rightarrow> addr \<Rightarrow> nat \<Rightarrow> nat \<Rightarrow> 'a world \<Rightarrow> (unit, 'a world) outcome" where
  "copy_loop T src dst i 0 w = Return () w"
| "copy_loop T src dst i (Suc k) w =
     (case load src i w of
        None \<Rightarrow> Undefined
      | Some x \<Rightarrow>
          (case placement_new T dst i x w of
             Return u w' \<Rightarrow> copy_loop T src dst (Suc i) k w'
           | Throw e w' \<Rightarrow>
               (case destroy_elements dst i w' of
                  Return u w'' \<Rightarrow> Throw e w''
                | Throw e' w'' \<Rightarrow> Throw e' w''
                | Undefined \<Rightarrow> Undefined)
           | Undefined \<Rightarrow> Undefined))"

definition copy_elements :: "elem_type \<Rightarrow> addr \<Rightarrow> addr \<Rightarrow> nat \<Rightarrow> 'a world \<Rightarrow> (unit, 'a world) outcome" where
  "copy_elements T src dst sz w =
     (if trivially_copy_constructible T
      then memcpy T dst src ((sz * sizeof_T T) mod SIZE_MOD) w
      else copy_loop T src dst 0 sz w)"

definition calc_new_capacity :: "vector \<Rightarrow> nat" where
  "calc_new_capacity v = (if capacity_m v = 0 then 1 else (capacity_m v * 2) mod SIZE_MOD)"

definition new_buffer :: "elem_type \<Rightarrow> nat \<Rightarrow> vector \<Rightarrow> 'a world \<Rightarrow> (unit, vector \<times> 'a world) outcome" where
  "new_buffer T new_capacity v w =
     (case (if new_capacity \<noteq> 0 then allocate_data T new_capacity w else Return 0 w) of
        Undefined \<Rightarrow> Undefined
      | Throw e w1 \<Rightarrow> Throw e (v, w1)
      | Return new_data w1 \<Rightarrow>
          (case (if size_m v \<noteq> 0
                 then (case copy_elements T (data_m v) new_data (size_m v) w1 of
                         Return u w2 \<Rightarrow> destroy_elements (data_m v) (size_m v) w2
                       | Throw e w2 \<Rightarrow>
                           (case operator_delete new_data w2 of
                              Return u w3 \<Rightarrow> Throw e w3
                            | Throw e' w3 \<Rightarrow> Throw e' w3
                            | Undefined \<Rightarrow> Undefined)
                       | Undefined \<Rightarrow> Undefined)
                 else Return () w1) of
             Undefined \<Rightarrow> Undefined
           | Throw e w2 \<Rightarrow> Throw e (v, w2)
           | Return u w2 \<Rightarrow>
               (case operator_delete (data_m v) w2 of
                  Return u' w3 \<Rightarrow>
                    Return () (v\<lparr>data_m := new_data, capacity_m := new_capacity\<rparr>, w3)
                | Throw e w3 \<Rightarrow> Throw e (v, w3)
                | Undefined \<Rightarrow> Undefined)))"

text \<open>\<^verbatim>\<open>clear()\<close> and the destructor \<^verbatim>\<open>~vector()\<close>, after which the object is gone.\<close>

definition clear :: "vector \<Rightarrow> 'a world \<Rightarrow> (unit, vector \<times> 'a world) outcome" where
  "clear v w =
     (case destroy_elements (data_m v) (size_m v) w of
        Return u w' \<Rightarrow> Return () (v\<lparr>size_m := 0\<rparr>, w')
      | Throw e w' \<Rightarrow> Throw e (v, w')
      | Undefined \<Rightarrow> Undefined)"

definition dtor :: "vector \<Rightarrow> 'a world \<Rightarrow> (unit, 'a world) outcome" where
  "dtor v w =
     (case clear v w of
        Return u (v', w') \<Rightarrow> operator_delete (data_m v') w'
      | Throw e (v', w') \<Rightarrow> Throw e w'
      | Undefined \<Rightarrow> Undefined)"

text \<open>
  \<^verbatim>\<open>vector(vector const& other) : vector()\<close>. The constructor delegates, so when
  its body throws the destructor of the object under construction runs.
\<close>

definition copy_ctor :: "elem_type \<Rightarrow> vector \<Rightarrow> 'a world \<Rightarrow> (vector, 'a world) outcome" where
  "copy_ctor T other w =
     (if size_m other \<noteq> 0
      then (case allocate_data T (size_m other) w of
              Undefined \<Rightarrow> Undefined
            | Throw e w1 \<Rightarrow>
                (case dtor default_ctor w1 of
                   Return u w2 \<Rightarrow> Throw e w2
                 | Throw e' w2 \<Rightarrow> Throw e' w2
                 | Undefined \<Rightarrow> Undefined)
            | Return p w1 \<Rightarrow>
                (case copy_elements T (data_m other) p (size_m other) w1 of
                   Undefined \<Rightarrow> Undefined
                 | Throw e w2 \<Rightarrow>
                     (case dtor (default_ctor\<lparr>data_m := p\<rparr>) w2 of
                        Return u w3 \<Rightarrow> Throw e w3
                      | Throw e' w3 \<Rightarrow> Throw e' w3
                      | Undefined \<Rightarrow> Undefined)
                 | Return u w2 \<Rightarrow>
                     Return \<lparr>data_m = p, size_m = size_m other, capacity_m = size_m other\<rparr> w2))
      else Return default_ctor w)"

text \<open>\<^verbatim>\<open>swap(vector& other)\<close>: the three fields change places.\<close>

definition swap :: "vector \<Rightarrow> vector \<Rightarrow> vector \<times> vector" where
  "swap v other =
     (\<lparr>data_m = data_m other, size_m = size_m other, capacity_m = capacity_m other\<rparr>,
      \<lparr>data_m = data_m v, size_m = size_m v, capacity_m = capacity_m v\<rparr>)"

text \<open>
  \<^verbatim>\<open>operator=(vector const& other)\<close>; \<open>same\<close> is the test \<^verbatim>\<open>this == &other\<close>.
  The temporary \<^verbatim>\<open>vector(other)\<close> is swapped with \<^verbatim>\<open>*this\<close> and then destroyed.
\<close>

definition operator_assign :: "elem_type \<Rightarrow> bool \<Rightarrow> vector \<Rightarrow> vector \<Rightarrow> 'a world \<Rightarrow> (unit, vector \<times> 'a world) outcome" where
  "operator_assign T same v other w =
     (if \<not> same
      then (case copy_ctor T other w of
              Undefined \<Rightarrow> Undefined
            | Throw e w1 \<Rightarrow> Throw e (v, w1)
            | Return tmp w1 \<Rightarrow>
                (case swap tmp v of
                   (tmp', v') \<Rightarrow>
                     (case dtor tmp' w1 of
                        Return u w2 \<Rightarrow> Return () (v', w2)
                      | Throw e w2 \<Rightarrow> Throw e (v', w2)
                      | Undefined \<Rightarrow> Undefined)))
      else Return () (v, w))"

text \<open>\<^verbatim>\<open>operator[]\<close>, \<^verbatim>\<open>front\<close> and \<^verbatim>\<open>back\<close>; \<open>None\<close> is an access outside the live elements.\<close>

definition index :: "vector \<Rightarrow> nat \<Rightarrow> 'a world \<Rightarrow> 'a option" where
  "index v i w = load (data_m v) i w"

definition front_elem :: "vector \<Rightarrow> 'a world \<Rightarrow> 'a option" where
  "front_elem v w = load (data_m v) 0 w"

definition back_elem :: "vector \<Rightarrow> 'a world \<Rightarrow> 'a option" where
  "back_elem v w = load (data_m v) ((size_m v + SIZE_MOD - 1) mod SIZE_MOD) w"

definition empty_vector :: "vector \<Rightarrow> bool" where
  "empty_vector v = (size_m v = 0)"

definition begin_it :: "vector \<Rightarrow> iterator" where
  "begin_it v = (data_m v, 0)"

definition end_it :: "vector \<Rightarrow> iterator" where
  "end_it v = (data_m v, int (size_m v))"

text \<open>\<^verbatim>\<open>push_back(T const& element)\<close>\<close>

definition push_back :: "elem_type \<Rightarrow> 'a \<Rightarrow> vector \<Rightarrow> 'a world \<Rightarrow> (unit, vector \<times> 'a world) outcome" where
  "push_back T element v w =
     (case (if size_m v = capacity_m v
            then (case copy_local T element w of
                    Undefined \<Rightarrow> Undefined
                  | Throw e w1 \<Rightarrow> Throw e (v, w1)
                  | Return tmp w1 \<Rightarrow>
                      (case new_buffer T (calc_new_capacity v) v w1 of
                         Undefined \<Rightarrow> Undefined
                       | Throw e (v2, w2) \<Rightarrow> Throw e (v2, w2)
                       | Return u (v2, w2) \<Rightarrow>
                           (case placement_new T (data_m v2) (size_m v2) tmp w2 of
                              Undefined \<Rightarrow> Undefined
                            | Throw e w3 \<Rightarrow> Throw e (v2, w3)
                            | Return u' w3 \<Rightarrow> Return () (v2, w3))))
            else (case placement_new T (data_m v) (size_m v) element w of
                    Undefined \<Rightarrow> Undefined
                  | Throw e w1 \<Rightarrow> Throw e (v, w1)
                  | Return u w1 \<Rightarrow> Return () (v, w1))) of
        Undefined \<Rightarrow> Undefined
      | Throw e s \<Rightarrow> Throw e s
      | Return u (v', w') \<Rightarrow> Return () (v'\<lparr>size_m := (size_m v' + 1) mod SIZE_MOD\<rparr>, w'))"

text \<open>\<^verbatim>\<open>pop_back()\<close>: \<^verbatim>\<open>data_m[--size_m].~T()\<close>, the decrement in \<^verbatim>\<open>size_t\<close>.\<close>

definition pop_back :: "vector \<Rightarrow> 'a world \<Rightarrow> (unit, vector \<times> 'a world) outcome" where
  "pop_back v w =
     (let v' = v\<lparr>size_m := (size_m v + SIZE_MOD - 1) mod SIZE_MOD\<rparr> in
      case destroy_at (data_m v') (size_m v') w of
        Return u w' \<Rightarrow> Return () (v', w')
      | Throw e w' \<Rightarrow> Throw e (v', w')
      | Undefined \<Rightarrow> Undefined)"

definition reserve :: "elem_type \<Rightarrow> nat \<Rightarrow> vector \<Rightarrow> 'a world \<Rightarrow> (unit, vector \<times> 'a world) outcome" where
  "reserve T new_capacity v w =
     (if new_capacity > capacity_m v then new_buffer T new_capacity v w else Return () (v, w))"

definition shrink_to_fit :: "elem_type \<Rightarrow> vector \<Rightarrow> 'a world \<Rightarrow> (unit, vector \<times> 'a world) outcome" where
  "shrink_to_fit T v w =
     (if size_m v < capacity_m v then new_buffer T (size_m v) v w else Return () (v, w))"

text \<open>
  The difference \<^verbatim>\<open>p - q\<close> of two pointers, defined for pointers into one block.
\<close>

definition ptr_diff :: "iterator \<Rightarrow> iterator \<Rightarrow> int option" where
  "ptr_diff p q = (if fst p = fst q then Some (snd p - snd q) else None)"

text \<open>
  The loop of \<^verbatim>\<open>insert\<close>:
  \<^verbatim>\<open>for (iterator i = end() - 1; i != cur; --i) std::swap(*i, *(i - 1));\<close>
  with \<open>i\<close> and \<open>cur\<close> as offsets into block \<open>p\<close>. At \<open>i \<le> 0\<close> the element
  \<^verbatim>\<open>*(i - 1)\<close> is in front of the block.
\<close>

function insert_loop :: "elem_type \<Rightarrow> addr \<Rightarrow> int \<Rightarrow> int \<Rightarrow> 'a world \<Rightarrow> (unit, 'a world) outcome" where
  "insert_loop T p i cur w =
     (if i = cur then Return () w
      else if i \<le> 0 then Undefined
      else case std_swap T p (nat i) (nat (i - 1)) w of
             Return u w' \<Rightarrow> insert_loop T p (i - 1) cur w'
           | Throw e w' \<Rightarrow> Throw e w'
           | Undefined \<Rightarrow> Undefined)"
  by pat_completeness auto
termination
  by (relation "measure (\<lambda>(T, p, i, cur, w). nat i)") auto

definition insert_vector :: "elem_type \<Rightarrow> iterator \<Rightarrow> 'a \<Rightarrow> vector \<Rightarrow> 'a world \<Rightarrow> (iterator, vector \<times> 'a world) outcome" where
  "insert_vector T pos element v w =
     (case ptr_diff pos (begin_it v) of
        None \<Rightarrow> Undefined
      | Some ind \<Rightarrow>
          (case push_back T element v w of
             Undefined \<Rightarrow> Undefined
           | Throw e s \<Rightarrow> Throw e s
           | Return u (v1, w1) \<Rightarrow>
               (let cur = (data_m v1, ind) in
                case insert_loop T (data_m v1) (snd (end_it v1) - 1) (snd cur) w1 of
                  Undefined \<Rightarrow> Undefined
                | Throw e w2 \<Rightarrow> Throw e (v1, w2)
                | Return u' w2 \<Rightarrow> Return cur (v1, w2))))"

text \<open>
  The first loop of \<^verbatim>\<open>erase\<close>:
  \<^verbatim>\<open>for (iterator i = begin() + f_shift; i != end() - cnt; ++i) std::iter_swap(i, i + cnt);\<close>
  with \<open>i\<close> and \<open>stop\<close> as offsets into block \<open>p\<close>. An offset \<open>i\<close> in front of the
  block or \<open>i + cnt\<close> behind it is outside the buffer.
\<close>

function erase_loop :: "elem_type \<Rightarrow> addr \<Rightarrow> int \<Rightarrow> int \<Rightarrow> int \<Rightarrow> 'a world \<Rightarrow> (unit, 'a world) outcome" where
  "erase_loop T p i stop cnt w =
     (if i = stop then Return () w
      else if i < 0 \<or> cnt \<le> 0 \<or> int (block_len w p) \<le> i + cnt then Undefined
      else case std_swap T p (nat i) (nat (i + cnt)) w of
             Return u w' \<Rightarrow> erase_loop T p (i + 1) stop cnt w'
           | Throw e w' \<Rightarrow> Throw e w'
           | Undefined \<Rightarrow> Undefined)"
  by pat_completeness auto
termination
proof (relation "measure (\<lambda>(T, p, i, stop, cnt, w). nat (int (block_len w p) - i))")
  show "wf (measure (\<lambda>(T, p, i, stop, cnt, w). nat (int (block_len w p) - i)))"
    by simp
next
  fix T :: elem_type and p :: addr and i stop cnt :: int and w w' :: "'a world" and u :: unit
  assume guard: "\<not> (i < 0 \<or> cnt \<le> 0 \<or> int (block_len w p) \<le> i + cnt)"
    and ret: "std_swap T p (nat i) (nat (i + cnt)) w = Return u w'"
  from ret have "block_len w' p = block_len w p"
    by (auto simp: std_swap_def elem_op_def next_fault_def block_len_def block_at_def
        set_block_def split: option.splits if_splits prod.splits list.splits bool.splits)
  with guard
  show "((T, p, i + 1, stop, cnt, w'), (T, p, i, stop, cnt, w))
        \<in> measure (\<lambda>(T, p, i, stop, cnt, w). nat (int (block_len w p) - i))"
    by simp
qed

text \<open>\<^verbatim>\<open>for (size_t i = 0; i != cnt; ++i) pop_back();\<close>\<close>

fun pop_back_n :: "nat \<Rightarrow> vector \<Rightarrow> 'a world \<Rightarrow> (unit, vector \<times> 'a world) outcome" where
  "pop_back_n 0 v w = Return () (v, w)"
| "pop_back_n (Suc n) v w =
     (case pop_back v w of
        Return u (v', w') \<Rightarrow> pop_back_n n v' w'
      | Throw e s \<Rightarrow> Throw e s
      | Undefined \<Rightarrow> Undefined)"

definition erase :: "elem_type \<Rightarrow> iterator \<Rightarrow> iterator \<Rightarrow> vector \<Rightarrow> 'a world \<Rightarrow> (iterator, vector \<times> 'a world) outcome" where
  "erase T first_it last_it v w =
     (case ptr_diff first_it (begin_it v) of
        None \<Rightarrow> Undefined
      | Some f_shift \<Rightarrow>
          (case ptr_diff last_it (begin_it v) of
             None \<Rightarrow> Undefined
           | Some l_shift \<Rightarrow>
               (let cnt = l_shift - f_shift in
                if cnt \<le> 0 then Return (data_m v, l_shift) (v, w)
                else case erase_loop T (data_m v) f_shift (snd (end_it v) - cnt) cnt w of
                       Undefined \<Rightarrow> Undefined
                     | Throw e w1 \<Rightarrow> Throw e (v, w1)
                     | Return u w1 \<Rightarrow>
                         (case pop_back_n (nat cnt) v w1 of
                            Undefined \<Rightarrow> Undefined
                          | Throw e s \<Rightarrow> Throw e s
                          | Return u' (v2, w2) \<Rightarrow> Return (data_m v2, f_shift) (v2, w2)))))"

text \<open>\<^verbatim>\<open>erase(pos)\<close> is \<^verbatim>\<open>erase(pos, pos + 1)\<close>.\<close>

definition erase1 :: "elem_type \<Rightarrow> iterator \<Rightarrow> vector \<Rightarrow> 'a world \<Rightarrow> (iterator, vector \<times> 'a world) outcome" where
  "erase1 T pos v w = erase T pos (fst pos, snd pos + 1) v w"

text \<open>The sequence of live elements, read with \<^verbatim>\<open>operator[]\<close> at \<open>0, \<dots>, size - 1\<close>.\<close>

definition elems :: "vector \<Rightarrow> 'a world \<Rightarrow> 'a option list" where
  "elems v w = map (\<lambda>i. index v i w) [0..<size_m v]"


section \<open>Invariants\<close>

text \<open>
  Invariant I2 as the specification states it: \<open>size \<le> capacity\<close>, and a container
  of capacity \<open>0\<close> has no buffer.
\<close>

definition invariant_I2 :: "vector \<Rightarrow> bool" where
  "invariant_I2 v \<longleftrightarrow> size_m v \<le> capacity_m v \<and> (capacity_m v = 0 \<longrightarrow> data_m v = 0)"

text \<open>
  The representation invariant of a container \<open>v\<close> in the state \<open>w\<close>: the fields
  are values of \<^verbatim>\<open>size_t\<close>, the buffer is null exactly when the capacity is \<open>0\<close>,
  and otherwise it is an allocated block that is no longer than the capacity,
  whose byte size is a value of \<^verbatim>\<open>size_t\<close>, and whose first \<open>size\<close> slots hold
  constructed elements.
\<close>

definition vec_inv :: "elem_type \<Rightarrow> vector \<Rightarrow> 'a world \<Rightarrow> bool" where
  "vec_inv T v w \<longleftrightarrow>
     0 < sizeof_T T \<and> size_m v \<le> capacity_m v \<and> capacity_m v < SIZE_MOD \<and>
     (if data_m v = 0 then capacity_m v = 0
      else capacity_m v \<noteq> 0 \<and>
           (case block_at w (data_m v) of
              None \<Rightarrow> False
            | Some blk \<Rightarrow>
                size_m v \<le> length blk \<and> length blk \<le> capacity_m v \<and>
                length blk * sizeof_T T < SIZE_MOD \<and> None \<notin> set (take (size_m v) blk)))"

text \<open>
  What a call on the container \<open>v\<close> may do to the heap: blocks are only added,
  every block that existed and is not the buffer of \<open>v\<close> is as it was, and the
  buffer afterwards is the old one, null, or a block that did not exist before.
\<close>

definition frame :: "vector \<Rightarrow> 'a world \<Rightarrow> vector \<Rightarrow> 'a world \<Rightarrow> bool" where
  "frame v w v' w' \<longleftrightarrow>
     length (heap w) \<le> length (heap w') \<and>
     (\<forall>q. q \<noteq> data_m v \<longrightarrow> q \<le> length (heap w) \<longrightarrow> block_at w' q = block_at w q) \<and>
     (data_m v' = data_m v \<or> data_m v' = 0 \<or> length (heap w) < data_m v')"

text \<open>
  \<open>blk'\<close> has the length of \<open>blk\<close> and a constructed element wherever \<open>blk\<close>
  has one.
\<close>

definition keeps_live :: "'a option list \<Rightarrow> 'a option list \<Rightarrow> bool" where
  "keeps_live blk blk' \<longleftrightarrow>
     length blk' = length blk \<and> (\<forall>j < length blk. blk ! j \<noteq> None \<longrightarrow> blk' ! j \<noteq> None)"

text \<open>
  A state in which no failure is scheduled: no allocation and no operation of the
  element type throws from here on.
\<close>

definition nothing_throws :: "'a world \<Rightarrow> bool" where
  "nothing_throws w \<longleftrightarrow> True \<notin> set (faults w)"

declare insert_loop.simps [simp del]
declare erase_loop.simps [simp del]

section \<open>Calls and programs\<close>

text \<open>
  A call of a mutating member function on one container, with its arguments. The
  argument of \<^verbatim>\<open>reserve\<close> is a \<^verbatim>\<open>size_t\<close>.
\<close>

datatype 'a member_call =
  Push_back 'a | Pop_back | Reserve nat | Shrink_to_fit | Clear
  | Insert iterator 'a | Erase iterator iterator | Erase1 iterator

fun call :: "elem_type \<Rightarrow> 'a member_call \<Rightarrow> vector \<Rightarrow> 'a world \<Rightarrow> (unit, vector \<times> 'a world) outcome" where
  "call T (Push_back x) v w = push_back T x v w"
| "call T Pop_back v w = pop_back v w"
| "call T (Reserve n) v w = reserve T n v w"
| "call T Shrink_to_fit v w = shrink_to_fit T v w"
| "call T Clear v w = clear v w"
| "call T (Insert pos x) v w =
     (case insert_vector T pos x v w of
        Return it s \<Rightarrow> Return () s | Throw e s \<Rightarrow> Throw e s | Undefined \<Rightarrow> Undefined)"
| "call T (Erase first_it last_it) v w =
     (case erase T first_it last_it v w of
        Return it s \<Rightarrow> Return () s | Throw e s \<Rightarrow> Throw e s | Undefined \<Rightarrow> Undefined)"
| "call T (Erase1 pos) v w =
     (case erase1 T pos v w of
        Return it s \<Rightarrow> Return () s | Throw e s \<Rightarrow> Throw e s | Undefined \<Rightarrow> Undefined)"

fun wf_call :: "'a member_call \<Rightarrow> bool" where
  "wf_call (Reserve n) = (n < SIZE_MOD)"
| "wf_call c = True"


text \<open>\<open>n\<close> calls of \<^verbatim>\<open>push_back\<close> that all return, one for each element of the list.\<close>

fun push_back_seq :: "elem_type \<Rightarrow> 'a list \<Rightarrow> vector \<Rightarrow> 'a world \<Rightarrow> (unit, vector \<times> 'a world) outcome" where
  "push_back_seq T [] v w = Return () (v, w)"
| "push_back_seq T (x # xs) v w =
     (case push_back T x v w of
        Return u (v', w') \<Rightarrow> push_back_seq T xs v' w'
      | Throw e s \<Rightarrow> Throw e s
      | Undefined \<Rightarrow> Undefined)"

text \<open>
  A program state with several containers, and the operations of the public
  interface on it: construction of a new container (by default or as a copy of
  container \<open>j\<close>), assignment of container \<open>j\<close> to container \<open>i\<close>, \<^verbatim>\<open>swap\<close> of two
  containers, and a member call on container \<open>i\<close>.
\<close>

datatype 'a sys_call =
  Construct | Copy_construct nat | Copy_assign nat nat | Swap nat nat
  | Member nat "'a member_call"

fun exec :: "elem_type \<Rightarrow> 'a sys_call \<Rightarrow> vector list \<times> 'a world \<Rightarrow> (unit, vector list \<times> 'a world) outcome" where
  "exec T Construct (vs, w) = Return () (vs @ [default_ctor], w)"
| "exec T (Copy_construct j) (vs, w) =
     (if j < length vs
      then (case copy_ctor T (vs ! j) w of
              Return c w' \<Rightarrow> Return () (vs @ [c], w')
            | Throw e w' \<Rightarrow> Throw e (vs, w')
            | Undefined \<Rightarrow> Undefined)
      else Undefined)"
| "exec T (Copy_assign i j) (vs, w) =
     (if i < length vs \<and> j < length vs
      then (case operator_assign T (i = j) (vs ! i) (vs ! j) w of
              Return u (v', w') \<Rightarrow> Return () (vs[i := v'], w')
            | Throw e (v', w') \<Rightarrow> Throw e (vs[i := v'], w')
            | Undefined \<Rightarrow> Undefined)
      else Undefined)"
| "exec T (Swap i j) (vs, w) =
     (if i < length vs \<and> j < length vs
      then (case swap (vs ! i) (vs ! j) of (a, b) \<Rightarrow> Return () (vs[i := a, j := b], w))
      else Undefined)"
| "exec T (Member i c) (vs, w) =
     (if i < length vs
      then (case call T c (vs ! i) w of
              Return u (v', w') \<Rightarrow> Return () (vs[i := v'], w')
            | Throw e (v', w') \<Rightarrow> Throw e (vs[i := v'], w')
            | Undefined \<Rightarrow> Undefined)
      else Undefined)"

fun wf_sys_call :: "'a sys_call \<Rightarrow> bool" where
  "wf_sys_call (Member i c) = wf_call c"
| "wf_sys_call c = True"

text \<open>
  The states a program reaches from a state without containers, by calls that
  return or throw.
\<close>

inductive reachable :: "elem_type \<Rightarrow> vector list \<times> 'a world \<Rightarrow> bool" for T where
  start: "reachable T ([], w)"
| returns: "reachable T s \<Longrightarrow> wf_sys_call c \<Longrightarrow> exec T c s = Return u s' \<Longrightarrow> reachable T s'"
| throws: "reachable T s \<Longrightarrow> wf_sys_call c \<Longrightarrow> exec T c s = Throw e s' \<Longrightarrow> reachable T s'"

text \<open>
  The invariant of a program state: every container satisfies its representation
  invariant, and no two containers share a buffer (invariant I3).
\<close>

definition sys_inv :: "elem_type \<Rightarrow> vector list \<times> 'a world \<Rightarrow> bool" where
  "sys_inv T s \<longleftrightarrow>
     (\<forall>i < length (fst s). vec_inv T (fst s ! i) (snd s)) \<and>
     (\<forall>i < length (fst s). \<forall>j < length (fst s).
        i \<noteq> j \<longrightarrow> data_m (fst s ! i) \<noteq> data_m (fst s ! j) \<or> data_m (fst s ! i) = 0)"

section \<open>A concrete element type and state\<close>

text \<open>
  An element type of four bytes with a copy constructor that is not trivial, and a
  state with one container of size \<open>2\<close> and capacity \<open>4\<close> holding \<open>10, 20\<close>.
\<close>

definition T_ex :: elem_type where
  "T_ex = \<lparr>sizeof_T = 4, trivially_copy_constructible = False\<rparr>"

definition v_ex :: vector where
  "v_ex = \<lparr>data_m = 1, size_m = 2, capacity_m = 4\<rparr>"

definition w_ex :: "nat world" where
  "w_ex = \<lparr>heap = [Some [Some 10, Some 20, None, None]], faults = []\<rparr>"

section \<open>The heap primitives\<close>

lemma block_at_null: "block_at w 0 = None"
  by (simp add: block_at_def)

lemma block_at_beyond: "length (heap w) < p \<Longrightarrow> block_at w p = None"
  by (simp add: block_at_def)

lemma block_at_heap_eq: "heap w' = heap w \<Longrightarrow> block_at w' = block_at w"
  by (rule ext) (simp add: block_at_def)

lemma block_at_set_block:
  "block_at w p \<noteq> None \<Longrightarrow> block_at (set_block p b w) = (block_at w)(p := b)"
  by (rule ext) (auto simp: block_at_def set_block_def nth_list_update split: if_splits)

lemma length_heap_set_block: "length (heap (set_block p b w)) = length (heap w)"
  by (simp add: set_block_def)

lemma faults_set_block: "faults (set_block p b w) = faults w"
  by (simp add: set_block_def)

lemma next_fault_heap: "next_fault w = (f, w') \<Longrightarrow> heap w' = heap w"
  by (auto simp: next_fault_def split: list.splits)

lemma elem_op_heap: "elem_op T w = (f, w') \<Longrightarrow> heap w' = heap w"
  by (auto simp: elem_op_def next_fault_heap split: if_splits)

lemma operator_new_Return:
  assumes "operator_new T bytes w = Return a w'"
  shows "a = Suc (length (heap w))"
    and "block_at w' = (block_at w)(a := Some (replicate (bytes div sizeof_T T) None))"
    and "length (heap w') = Suc (length (heap w))"
proof -
  obtain w1 where nf: "next_fault w = (False, w1)"
    and a: "a = Suc (length (heap w1))"
    and w': "w' = w1\<lparr>heap := heap w1 @ [Some (replicate (bytes div sizeof_T T) None)]\<rparr>"
    using assms by (auto simp: operator_new_def split: prod.splits bool.splits)
  have h: "heap w1 = heap w" using nf by (rule next_fault_heap)
  show "a = Suc (length (heap w))" using a h by simp
  show "length (heap w') = Suc (length (heap w))" using w' h by simp
  show "block_at w' = (block_at w)(a := Some (replicate (bytes div sizeof_T T) None))"
    using a h w' by (auto simp: block_at_def nth_append fun_eq_iff)
qed

lemma operator_new_Throw:
  "operator_new T bytes w = Throw e w' \<Longrightarrow> heap w' = heap w"
  by (auto simp: operator_new_def next_fault_heap split: prod.splits bool.splits)

lemma operator_new_defined: "operator_new T bytes w \<noteq> Undefined"
  by (auto simp: operator_new_def split: prod.splits bool.splits)

lemma operator_delete_Return:
  assumes "operator_delete p w = Return u w'"
  shows "block_at w' = (block_at w)(p := None)"
    and "length (heap w') = length (heap w)"
    and "faults w' = faults w"
  using assms
  by (auto simp: operator_delete_def block_at_set_block length_heap_set_block faults_set_block
      block_at_null split: if_splits option.splits)

lemma operator_delete_no_Throw: "operator_delete p w \<noteq> Throw e w'"
  by (auto simp: operator_delete_def split: if_splits option.splits)

lemma operator_delete_defined:
  "p = 0 \<or> block_at w p \<noteq> None \<Longrightarrow> \<exists>w'. operator_delete p w = Return () w'"
  by (auto simp: operator_delete_def split: if_splits option.splits)

lemma placement_new_Return:
  assumes "placement_new T p i x w = Return u w'"
  obtains blk where "block_at w p = Some blk" and "i < length blk"
    and "block_at w' = (block_at w)(p := Some (blk[i := Some x]))"
    and "length (heap w') = length (heap w)"
proof -
  from assms obtain blk w1 where b: "block_at w p = Some blk" and i: "i < length blk"
    and eo: "elem_op T w = (False, w1)"
    and w': "w' = set_block p (Some (blk[i := Some x])) w1"
    by (auto simp: placement_new_def split: option.splits if_splits prod.splits bool.splits)
  have h: "heap w1 = heap w" using eo by (rule elem_op_heap)
  then have bw: "block_at w1 = block_at w" by (rule block_at_heap_eq)
  show thesis
  proof (rule that [OF b i])
    show "block_at w' = (block_at w)(p := Some (blk[i := Some x]))"
      using w' b bw by (simp add: block_at_set_block)
    show "length (heap w') = length (heap w)"
      using w' h by (simp add: length_heap_set_block)
  qed
qed

lemma placement_new_Throw:
  "placement_new T p i x w = Throw e w' \<Longrightarrow> heap w' = heap w"
  by (auto simp: placement_new_def elem_op_heap
      split: option.splits if_splits prod.splits bool.splits)

lemma copy_local_Return: "copy_local T x w = Return y w' \<Longrightarrow> y = x \<and> heap w' = heap w"
  by (auto simp: copy_local_def elem_op_heap split: prod.splits bool.splits)

lemma copy_local_Throw: "copy_local T x w = Throw e w' \<Longrightarrow> heap w' = heap w"
  by (auto simp: copy_local_def elem_op_heap split: prod.splits bool.splits)

lemma destroy_at_Return:
  assumes "destroy_at p i w = Return u w'"
  obtains blk where "block_at w p = Some blk" and "i < length blk" and "blk ! i \<noteq> None"
    and "block_at w' = (block_at w)(p := Some (blk[i := None]))"
    and "length (heap w') = length (heap w)" and "faults w' = faults w"
  using assms
  by (auto simp: destroy_at_def block_at_set_block length_heap_set_block faults_set_block
      split: option.splits if_splits)

lemma destroy_at_no_Throw: "destroy_at p i w \<noteq> Throw e w'"
  by (auto simp: destroy_at_def split: option.splits if_splits)

lemma destroy_elements_no_Throw: "destroy_elements p n w \<noteq> Throw e w'"
  by (induction n arbitrary: w) (auto simp: destroy_at_no_Throw split: outcome.splits)

lemma destroy_elements_Return:
  "destroy_elements p n w = Return u w' \<Longrightarrow>
     (\<forall>q. q \<noteq> p \<longrightarrow> block_at w' q = block_at w q) \<and>
     (block_at w' p = None \<longleftrightarrow> block_at w p = None) \<and>
     length (heap w') = length (heap w) \<and> faults w' = faults w"
proof (induction n arbitrary: w)
  case 0
  then show ?case by simp
next
  case (Suc n)
  from Suc.prems obtain w1 where d: "destroy_at p n w = Return () w1"
    and r: "destroy_elements p n w1 = Return u w'"
    by (auto split: outcome.splits)
  from d obtain blk where b: "block_at w p = Some blk"
    and b1: "block_at w1 = (block_at w)(p := Some (blk[n := None]))"
    and l1: "length (heap w1) = length (heap w)" and f1: "faults w1 = faults w"
    by (rule destroy_at_Return)
  from Suc.IH [OF r] b b1 l1 f1 show ?case by simp
qed

lemma std_swap_Return:
  assumes "std_swap T p i j w = Return u w'"
  obtains blk where "block_at w p = Some blk" and "i < length blk" and "j < length blk"
    and "blk ! i \<noteq> None" and "blk ! j \<noteq> None"
    and "block_at w' = (block_at w)(p := Some (blk[i := blk ! j, j := blk ! i]))"
    and "length (heap w') = length (heap w)"
proof -
  from assms obtain blk w1 w2 w3 where b: "block_at w p = Some blk"
    and ij: "i < length blk" "j < length blk" "blk ! i \<noteq> None" "blk ! j \<noteq> None"
    and eo: "elem_op T w = (False, w1)" "elem_op T w1 = (False, w2)" "elem_op T w2 = (False, w3)"
    and w': "w' = set_block p (Some (blk[i := blk ! j, j := blk ! i])) w3"
    by (auto simp: std_swap_def split: option.splits if_splits prod.splits bool.splits)
  have h: "heap w3 = heap w" using eo by (simp add: elem_op_heap)
  then have bw: "block_at w3 = block_at w" by (rule block_at_heap_eq)
  show thesis
  proof (rule that [OF b ij])
    show "block_at w' = (block_at w)(p := Some (blk[i := blk ! j, j := blk ! i]))"
      using w' b bw by (simp add: block_at_set_block)
    show "length (heap w') = length (heap w)"
      using w' h by (simp add: length_heap_set_block)
  qed
qed

lemma std_swap_Throw:
  assumes "std_swap T p i j w = Throw e w'"
  obtains blk blk' where "block_at w p = Some blk" and "i < length blk" and "j < length blk"
    and "blk ! i \<noteq> None" and "blk ! j \<noteq> None"
    and "blk' = blk \<or> blk' = blk[i := blk ! j]"
    and "block_at w' = (block_at w)(p := Some blk')"
    and "length (heap w') = length (heap w)"
proof -
  from assms obtain blk where b: "block_at w p = Some blk"
    and ij: "i < length blk" "j < length blk" "blk ! i \<noteq> None" "blk ! j \<noteq> None"
    by (auto simp: std_swap_def split: option.splits if_splits)
  from assms b ij have
    "(heap w' = heap w) \<or> (\<exists>w1. heap w1 = heap w \<and> w' = set_block p (Some (blk[i := blk ! j])) w1)"
    by (auto simp: std_swap_def split: prod.splits bool.splits dest!: elem_op_heap)
  then show thesis
  proof (elim disjE exE)
    assume h: "heap w' = heap w"
    have "(block_at w)(p := Some blk) = block_at w"
      using b by (simp add: fun_upd_idem)
    then have "block_at w' = (block_at w)(p := Some blk)"
      using block_at_heap_eq [OF h] by simp
    moreover have "length (heap w') = length (heap w)"
      using h by simp
    ultimately show thesis using b ij by (intro that [of blk blk]) simp_all
  next
    fix w1
    assume h: "heap w1 = heap w \<and> w' = set_block p (Some (blk[i := blk ! j])) w1"
    then have "block_at w1 = block_at w"
      by (simp add: block_at_heap_eq [of w1 w])
    then have "block_at w' = (block_at w)(p := Some (blk[i := blk ! j]))"
      using b h by (simp add: block_at_set_block)
    moreover have "length (heap w') = length (heap w)"
      using h by (simp add: length_heap_set_block)
    ultimately show thesis using b ij by (intro that [of blk "blk[i := blk ! j]"]) simp_all
  qed
qed

lemma load_Some:
  "load p i w = Some x \<longleftrightarrow> (\<exists>blk. block_at w p = Some blk \<and> i < length blk \<and> blk ! i = Some x)"
  by (auto simp: load_def split: option.splits)

lemma memcpy_Return:
  assumes "memcpy T dst src nbytes w = Return u w'"
  obtains sb db where "block_at w src = Some sb" and "block_at w dst = Some db"
    and "nbytes mod sizeof_T T = 0"
    and "nbytes div sizeof_T T \<le> length sb" and "nbytes div sizeof_T T \<le> length db"
    and "block_at w' = (block_at w)(dst := Some (take (nbytes div sizeof_T T) sb @ drop (nbytes div sizeof_T T) db))"
    and "length (heap w') = length (heap w)" and "faults w' = faults w"
  using assms
  by (auto simp: memcpy_def Let_def block_at_set_block length_heap_set_block faults_set_block
      split: option.splits if_splits)

lemma memcpy_no_Throw: "memcpy T dst src nbytes w \<noteq> Throw e w'"
  by (auto simp: memcpy_def Let_def split: option.splits if_splits)

lemma copy_loop_Return:
  "copy_loop T src dst i k w = Return u w' \<Longrightarrow> src \<noteq> dst \<Longrightarrow>
   block_at w src = Some sb \<Longrightarrow> block_at w dst = Some db \<Longrightarrow>
   i \<le> length sb \<Longrightarrow> i \<le> length db \<Longrightarrow>
   i + k \<le> length sb \<and> i + k \<le> length db \<and>
   None \<notin> set (take k (drop i sb)) \<and>
   block_at w' = (block_at w)(dst := Some (take i db @ take k (drop i sb) @ drop (i + k) db)) \<and>
   length (heap w') = length (heap w)"
proof (induction k arbitrary: i w db)
  case 0
  then have "w' = w" by simp
  with 0 show ?case by (simp add: fun_upd_idem)
next
  case (Suc k)
  from Suc.prems(1) obtain x w1 where ld: "load src i w = Some x"
    and pn: "placement_new T dst i x w = Return () w1"
    and rest: "copy_loop T src dst (Suc i) k w1 = Return u w'"
    by (auto split: option.splits outcome.splits)
  from ld Suc.prems(3) have i_sb: "i < length sb" and x: "sb ! i = Some x"
    by (auto simp: load_Some)
  from pn Suc.prems(4) have i_db: "i < length db"
    and b1: "block_at w1 = (block_at w)(dst := Some (db[i := Some x]))"
    and l1: "length (heap w1) = length (heap w)"
    by (auto elim!: placement_new_Return)
  have src1: "block_at w1 src = Some sb" and dst1: "block_at w1 dst = Some (db[i := Some x])"
    using b1 Suc.prems(2,3) by auto
  have le1: "Suc i \<le> length sb" "Suc i \<le> length (db[i := Some x])"
    using i_sb i_db by auto
  note ih = Suc.IH [OF rest Suc.prems(2) src1 dst1 le1]
  have t1: "take (Suc i) (db[i := Some x]) = take i db @ [Some x]"
    using i_db by (simp add: take_Suc_conv_app_nth)
  have t2: "take (Suc k) (drop i sb) = Some x # take k (drop (Suc i) sb)"
    using i_sb x by (simp add: Cons_nth_drop_Suc [symmetric])
  have t3: "drop (Suc i + k) (db[i := Some x]) = drop (i + Suc k) db"
    by simp
  have "block_at w' = (block_at w1)(dst := Some (take (Suc i) (db[i := Some x]) @
      take k (drop (Suc i) sb) @ drop (Suc i + k) (db[i := Some x])))"
    using ih by blast
  then have "block_at w' = (block_at w)(dst := Some (take i db @ take (Suc k) (drop i sb) @
      drop (i + Suc k) db))"
    unfolding t1 t2 t3 b1 by simp
  moreover have "None \<notin> set (take (Suc k) (drop i sb))"
    using ih unfolding t2 by simp
  moreover have "i + Suc k \<le> length sb" "i + Suc k \<le> length db"
    using ih by simp_all
  moreover have "length (heap w') = length (heap w)"
    using ih l1 by simp
  ultimately show ?case by blast
qed



lemma copy_loop_Throw:
  "copy_loop T src dst i k w = Throw e w' \<Longrightarrow> src \<noteq> dst \<Longrightarrow>
   block_at w dst = Some db \<Longrightarrow>
   (\<forall>q. q \<noteq> dst \<longrightarrow> block_at w' q = block_at w q) \<and> block_at w' dst \<noteq> None \<and>
   length (heap w') = length (heap w)"
proof (induction k arbitrary: i w db)
  case 0
  then show ?case by simp
next
  case (Suc k)
  from Suc.prems(1) obtain x where ld: "load src i w = Some x"
    by (auto split: option.splits)
  show ?case
  proof (cases "placement_new T dst i x w")
    case (Return u1 w1)
    with Suc.prems(1) ld have rest: "copy_loop T src dst (Suc i) k w1 = Throw e w'"
      by simp
    from Return Suc.prems(3)
    have b1: "block_at w1 = (block_at w)(dst := Some (db[i := Some x]))"
      and l1: "length (heap w1) = length (heap w)"
      by (auto elim!: placement_new_Return)
    have dst1: "block_at w1 dst = Some (db[i := Some x])"
      using b1 by simp
    from Suc.IH [OF rest Suc.prems(2) dst1] b1 l1 show ?thesis by simp
  next
    case (Throw e1 w1)
    with Suc.prems(1) ld obtain u2 where d: "destroy_elements dst i w1 = Return u2 w'"
      by (auto split: outcome.splits simp: destroy_elements_no_Throw)
    have "block_at w1 = block_at w"
      using placement_new_Throw [OF Throw] by (rule block_at_heap_eq)
    moreover have "length (heap w1) = length (heap w)"
      using placement_new_Throw [OF Throw] by simp
    ultimately show ?thesis
      using destroy_elements_Return [OF d] Suc.prems(3) by simp
  next
    case Undefined
    with Suc.prems(1) ld show ?thesis by simp
  qed
qed

lemma copy_elements_Return:
  assumes "copy_elements T src dst n w = Return u w'" and "src \<noteq> dst"
    and "block_at w src = Some sb" and "block_at w dst = Some db"
    and "n * sizeof_T T < SIZE_MOD" and "0 < sizeof_T T"
  shows "n \<le> length sb" and "n \<le> length db"
    and "block_at w' = (block_at w)(dst := Some (take n sb @ drop n db))"
    and "length (heap w') = length (heap w)"
proof -
  have "n \<le> length sb \<and> n \<le> length db \<and>
    block_at w' = (block_at w)(dst := Some (take n sb @ drop n db)) \<and>
    length (heap w') = length (heap w)"
  proof (cases "trivially_copy_constructible T")
    case True
    with assms(1) have m: "memcpy T dst src (n * sizeof_T T) w = Return u w'"
      using assms(5) by (simp add: copy_elements_def)
    have k: "n * sizeof_T T div sizeof_T T = n"
      using assms(6) by simp
    from m assms(3,4) show ?thesis
      by (elim memcpy_Return) (simp add: k)
  next
    case False
    with assms(1) have "copy_loop T src dst 0 n w = Return u w'"
      by (simp add: copy_elements_def)
    from copy_loop_Return [OF this assms(2,3,4)] show ?thesis by simp
  qed
  then show "n \<le> length sb" and "n \<le> length db"
    and "block_at w' = (block_at w)(dst := Some (take n sb @ drop n db))"
    and "length (heap w') = length (heap w)"
    by simp_all
qed

lemma copy_elements_Throw:
  assumes "copy_elements T src dst n w = Throw e w'" and "src \<noteq> dst"
    and "block_at w dst = Some db"
  shows "\<forall>q. q \<noteq> dst \<longrightarrow> block_at w' q = block_at w q" and "block_at w' dst \<noteq> None"
    and "length (heap w') = length (heap w)"
proof -
  from assms(1) have "copy_loop T src dst 0 n w = Throw e w'"
    by (auto simp: copy_elements_def memcpy_no_Throw split: if_splits)
  from copy_loop_Throw [OF this assms(2,3)]
  show "\<forall>q. q \<noteq> dst \<longrightarrow> block_at w' q = block_at w q" and "block_at w' dst \<noteq> None"
    and "length (heap w') = length (heap w)"
    by simp_all
qed

lemma elems_take:
  "block_at w (data_m v) = Some blk \<Longrightarrow> size_m v \<le> length blk \<Longrightarrow>
   elems v w = take (size_m v) blk"
  by (auto simp: elems_def index_def load_def intro!: nth_equalityI)

lemma elems_empty: "size_m v = 0 \<Longrightarrow> elems v w = []"
  by (simp add: elems_def)

lemma length_elems: "length (elems v w) = size_m v"
  by (simp add: elems_def)

lemma vec_inv_null:
  "vec_inv T v w \<Longrightarrow> data_m v = 0 \<Longrightarrow> capacity_m v = 0 \<and> size_m v = 0"
  by (simp add: vec_inv_def)

lemma vec_inv_block:
  assumes "vec_inv T v w" and "data_m v \<noteq> 0"
  obtains blk where "block_at w (data_m v) = Some blk" and "size_m v \<le> length blk"
    and "length blk \<le> capacity_m v" and "length blk * sizeof_T T < SIZE_MOD"
    and "None \<notin> set (take (size_m v) blk)" and "capacity_m v \<noteq> 0"
  using assms by (auto simp: vec_inv_def split: option.splits)

lemma vec_inv_basic:
  "vec_inv T v w \<Longrightarrow> 0 < sizeof_T T \<and> size_m v \<le> capacity_m v \<and> capacity_m v < SIZE_MOD"
  by (simp add: vec_inv_def)

lemma vec_inv_data_le:
  "vec_inv T v w \<Longrightarrow> data_m v \<le> length (heap w)"
  by (rule ccontr) (auto simp: vec_inv_def block_at_beyond split: if_splits)

lemma vec_inv_I2: "vec_inv T v w \<Longrightarrow> invariant_I2 v"
  by (auto simp: vec_inv_def invariant_I2_def split: if_splits)

lemma vec_invI:
  assumes "0 < sizeof_T T" and "size_m v \<le> length blk" and "length blk \<le> capacity_m v"
    and "capacity_m v < SIZE_MOD" and "capacity_m v \<noteq> 0" and "data_m v \<noteq> 0"
    and "block_at w (data_m v) = Some blk" and "length blk * sizeof_T T < SIZE_MOD"
    and "None \<notin> set (take (size_m v) blk)"
  shows "vec_inv T v w"
  using assms by (simp add: vec_inv_def)

lemma SIZE_MOD_pos: "0 < SIZE_MOD"
  by (simp add: SIZE_MOD_def)

lemma vec_inv_nullI:
  "0 < sizeof_T T \<Longrightarrow> data_m v = 0 \<Longrightarrow> size_m v = 0 \<Longrightarrow> capacity_m v = 0 \<Longrightarrow> vec_inv T v w"
  by (simp add: vec_inv_def SIZE_MOD_pos)



lemma slots_le: "0 < s \<Longrightarrow> (n * s) mod SIZE_MOD div s \<le> (n::nat)"
proof -
  assume s: "0 < s"
  have "(n * s) mod SIZE_MOD div s \<le> (n * s) div s"
    by (rule div_le_mono) simp
  with s show ?thesis by simp
qed

lemma slots_bytes: "(n * s) mod SIZE_MOD div s * s < SIZE_MOD"
proof -
  have "(n * s) mod SIZE_MOD div s * s \<le> (n * s) mod SIZE_MOD"
    by (simp add: div_times_less_eq_dividend)
  also have "\<dots> < SIZE_MOD"
    by (simp add: SIZE_MOD_pos)
  finally show ?thesis .
qed

lemma slots_exact: "0 < s \<Longrightarrow> n * s < SIZE_MOD \<Longrightarrow> (n * s) mod SIZE_MOD div s = (n::nat)"
  by simp

lemma allocate_data_Return:
  assumes "allocate_data T n w = Return a w'"
  shows "a = Suc (length (heap w))"
    and "block_at w' = (block_at w)(a := Some (replicate ((n * sizeof_T T) mod SIZE_MOD div sizeof_T T) None))"
    and "length (heap w') = Suc (length (heap w))"
  using assms operator_new_Return [of T "(n * sizeof_T T) mod SIZE_MOD" w a w']
  by (simp_all add: allocate_data_def)

lemma allocate_data_Throw: "allocate_data T n w = Throw e w' \<Longrightarrow> heap w' = heap w"
  by (simp add: allocate_data_def operator_new_Throw)

lemma copy_elements_dst:
  assumes "copy_elements T src dst n w = Return u w'" and "0 < n"
  shows "block_at w dst \<noteq> None"
proof (cases "trivially_copy_constructible T")
  case True
  with assms(1) show ?thesis
    by (auto simp: copy_elements_def elim!: memcpy_Return)
next
  case False
  from assms(2) obtain k where n: "n = Suc k" by (cases n) auto
  from False assms(1) have "copy_loop T src dst 0 (Suc k) w = Return u w'"
    by (simp add: copy_elements_def n)
  then show ?thesis
    by (auto split: option.splits outcome.splits elim!: placement_new_Return)
qed

lemma new_buffer_Return:
  assumes nb: "new_buffer T n v w = Return u (v', w')" and inv: "vec_inv T v w"
    and n: "n < SIZE_MOD"
  shows "vec_inv T v' w'" and "elems v' w' = elems v w" and "size_m v' = size_m v"
    and "capacity_m v' = n" and "frame v w v' w'"
proof -
  from nb obtain new_data w1 w2 where
    alloc: "n = 0 \<and> new_data = 0 \<and> w1 = w \<or>
            n \<noteq> 0 \<and> allocate_data T n w = Return new_data w1"
    and move: "size_m v = 0 \<and> w2 = w1 \<or>
            size_m v \<noteq> 0 \<and> (\<exists>wc. copy_elements T (data_m v) new_data (size_m v) w1 = Return () wc \<and>
               destroy_elements (data_m v) (size_m v) wc = Return () w2)"
    and del: "operator_delete (data_m v) w2 = Return () w'"
    and v': "v' = v\<lparr>data_m := new_data, capacity_m := n\<rparr>"
    unfolding new_buffer_def by (auto split: outcome.splits if_splits)
  note basic = vec_inv_basic [OF inv]
  have s: "0 < sizeof_T T" using basic by simp
  have dle: "data_m v \<le> length (heap w)" using inv by (rule vec_inv_data_le)
  let ?k = "(n * sizeof_T T) mod SIZE_MOD div sizeof_T T"
  have w1c: "length (heap w) \<le> length (heap w1) \<and>
    (\<forall>q. q \<le> length (heap w) \<longrightarrow> block_at w1 q = block_at w q) \<and>
    (n = 0 \<longrightarrow> new_data = 0) \<and>
    (n \<noteq> 0 \<longrightarrow> new_data = Suc (length (heap w)) \<and> block_at w1 new_data = Some (replicate ?k None))"
  proof (cases "n = 0")
    case True
    with alloc show ?thesis by auto
  next
    case False
    with alloc have a: "allocate_data T n w = Return new_data w1" by auto
    from allocate_data_Return [OF a] False show ?thesis by simp
  qed
  then have w1: "length (heap w) \<le> length (heap w1)"
    "\<forall>q. q \<le> length (heap w) \<longrightarrow> block_at w1 q = block_at w q"
    "n = 0 \<longrightarrow> new_data = 0"
    "n \<noteq> 0 \<longrightarrow> new_data = Suc (length (heap w)) \<and> block_at w1 new_data = Some (replicate ?k None)"
    by blast+
  have nd: "new_data \<noteq> data_m v \<or> new_data = 0"
    using w1(3,4) dle by (cases "n = 0") auto
  have main: "length (heap w2) = length (heap w1) \<and>
      (\<forall>q. q \<noteq> data_m v \<longrightarrow> q \<noteq> new_data \<longrightarrow> block_at w2 q = block_at w1 q) \<and>
      (block_at w2 (data_m v) = None \<longleftrightarrow> block_at w1 (data_m v) = None) \<and>
      (n = 0 \<longrightarrow> size_m v = 0) \<and>
      (n \<noteq> 0 \<longrightarrow> (\<exists>blk. block_at w2 new_data = Some blk \<and> length blk = ?k \<and>
          size_m v \<le> ?k \<and> take (size_m v) blk = elems v w))"
  proof (cases "size_m v = 0")
    case True
    with move have "w2 = w1" by auto
    with True w1(4) show ?thesis by (auto simp: elems_empty)
  next
    case False
    with inv have d0: "data_m v \<noteq> 0" by (auto dest: vec_inv_null)
    from inv d0 obtain sb where sb: "block_at w (data_m v) = Some sb"
      and szsb: "size_m v \<le> length sb" and bytes: "length sb * sizeof_T T < SIZE_MOD"
      by (rule vec_inv_block)
    from False move obtain wc where
      cp: "copy_elements T (data_m v) new_data (size_m v) w1 = Return () wc"
      and de: "destroy_elements (data_m v) (size_m v) wc = Return () w2"
      by auto
    from cp False have dst: "block_at w1 new_data \<noteq> None"
      by (auto dest: copy_elements_dst)
    then have n0: "n \<noteq> 0" using w1(3) by (auto simp: block_at_null)
    with w1(4) have nda: "new_data = Suc (length (heap w))"
      and db: "block_at w1 new_data = Some (replicate ?k None)" by blast+
    have neq: "data_m v \<noteq> new_data" using nda dle by simp
    have sb1: "block_at w1 (data_m v) = Some sb" using w1(2) dle sb by simp
    have "size_m v * sizeof_T T \<le> length sb * sizeof_T T"
      using szsb by (rule mult_le_mono1)
    then have szb: "size_m v * sizeof_T T < SIZE_MOD" using bytes by (rule le_less_trans)
    note ce = copy_elements_Return [OF cp neq sb1 db szb s]
    note ds = destroy_elements_Return [OF de]
    have "block_at w2 new_data = Some (take (size_m v) sb @ drop (size_m v) (replicate ?k None))"
      using ds ce(3) neq by simp
    moreover have "length (take (size_m v) sb @ drop (size_m v) (replicate ?k None)) = ?k"
      using ce(1,2) by simp
    moreover have "take (size_m v) (take (size_m v) sb @ drop (size_m v) (replicate ?k None))
        = elems v w"
      using szsb sb by (simp add: elems_take)
    moreover have "size_m v \<le> ?k" using ce(2) by simp
    moreover have "\<forall>q. q \<noteq> data_m v \<longrightarrow> q \<noteq> new_data \<longrightarrow> block_at w2 q = block_at w1 q"
      using ds ce(3) by simp
    moreover have "block_at w2 (data_m v) = None \<longleftrightarrow> block_at w1 (data_m v) = None"
      using ds ce(3) neq by simp
    moreover have "length (heap w2) = length (heap w1)"
      using ds ce(4) by simp
    ultimately show ?thesis using n0 by blast
  qed
  note dl = operator_delete_Return [OF del]
  show "size_m v' = size_m v" and "capacity_m v' = n"
    using v' by simp_all
  have nd2: "new_data = 0 \<or> length (heap w) < new_data"
    using w1(3,4) by (cases "n = 0") auto
  show "frame v w v' w'"
    unfolding frame_def
  proof (intro conjI allI impI)
    show "length (heap w) \<le> length (heap w')"
      using w1(1) main dl(2) by simp
    show "data_m v' = data_m v \<or> data_m v' = 0 \<or> length (heap w) < data_m v'"
      using nd2 v' by auto
  next
    fix q
    assume q: "q \<noteq> data_m v" "q \<le> length (heap w)"
    show "block_at w' q = block_at w q"
    proof (cases "q = 0")
      case True
      then show ?thesis by (simp add: block_at_null)
    next
      case False
      with q nd2 have "q \<noteq> new_data" by auto
      with q main w1(2) dl(1) show ?thesis by simp
    qed
  qed
  show "elems v' w' = elems v w"
  proof (cases "n = 0")
    case True
    with main v' show ?thesis by (simp add: elems_empty)
  next
    case False
    with main obtain blk where "block_at w2 new_data = Some blk" "length blk = ?k"
      "size_m v \<le> ?k" "take (size_m v) blk = elems v w" by blast
    moreover have "new_data \<noteq> data_m v" using False w1(4) dle by simp
    ultimately have "block_at w' (data_m v') = Some blk" and "size_m v' \<le> length blk"
      and "take (size_m v') blk = elems v w"
      using v' dl(1) by simp_all
    then show ?thesis by (simp add: elems_take)
  qed
  show "vec_inv T v' w'"
  proof (cases "n = 0")
    case True
    with main v' w1(3) s show ?thesis by (simp add: vec_inv_nullI)
  next
    case False
    with main obtain blk where blk: "block_at w2 new_data = Some blk" "length blk = ?k"
      "size_m v \<le> ?k" "take (size_m v) blk = elems v w" by blast
    have neq: "new_data \<noteq> data_m v" using False w1(4) dle by simp
    have "None \<notin> set (elems v w)"
    proof (cases "data_m v = 0")
      case True
      with inv show ?thesis by (auto dest: vec_inv_null simp: elems_empty)
    next
      case False
      with inv show ?thesis by (auto elim!: vec_inv_block simp: elems_take)
    qed
    then show ?thesis
      using v' dl(1) blk neq False n s w1(4) slots_le [OF s, of n] slots_bytes [of n "sizeof_T T"]
      by (intro vec_invI [where blk = blk]) simp_all
  qed
qed



lemma elems_cong:
  "block_at w' (data_m v') = block_at w (data_m v) \<Longrightarrow> size_m v' = size_m v \<Longrightarrow>
   elems v' w' = elems v w"
  by (simp add: elems_def index_def load_def)

lemma vec_inv_cong:
  "block_at w' (data_m v') = block_at w (data_m v) \<Longrightarrow> size_m v' = size_m v \<Longrightarrow>
   capacity_m v' = capacity_m v \<Longrightarrow> (data_m v' = 0 \<longleftrightarrow> data_m v = 0) \<Longrightarrow>
   vec_inv T v w \<Longrightarrow> vec_inv T v' w'"
  unfolding vec_inv_def by (cases "data_m v = 0") (auto split: option.splits)

lemma frame_heap_eq: "heap w' = heap w \<Longrightarrow> frame v w v w'"
  using block_at_heap_eq [of w' w] by (simp add: frame_def)

lemma frame_refl: "frame v w v w"
  by (simp add: frame_def)

lemma frame_update:
  "length (heap w') = length (heap w) \<Longrightarrow>
   (\<forall>q. q \<noteq> data_m v \<longrightarrow> block_at w' q = block_at w q) \<Longrightarrow>
   data_m v' = data_m v \<Longrightarrow> frame v w v' w'"
  by (simp add: frame_def)

lemma frameD1: "frame v w v' w' \<Longrightarrow> length (heap w) \<le> length (heap w')"
  by (simp add: frame_def)

lemma frameD2:
  "frame v w v' w' \<Longrightarrow> q \<noteq> data_m v \<Longrightarrow> q \<le> length (heap w) \<Longrightarrow>
   block_at w' q = block_at w q"
  by (simp add: frame_def)

lemma frameD3:
  "frame v w v' w' \<Longrightarrow> data_m v' = data_m v \<or> data_m v' = 0 \<or> length (heap w) < data_m v'"
  by (simp add: frame_def)

lemma frame_trans:
  assumes f1: "frame v w v2 w2" and f2: "frame v2 w2 v3 w3"
  shows "frame v w v3 w3"
  unfolding frame_def
proof (intro conjI allI impI)
  show "length (heap w) \<le> length (heap w3)"
    using frameD1 [OF f1] frameD1 [OF f2] by simp
  show "data_m v3 = data_m v \<or> data_m v3 = 0 \<or> length (heap w) < data_m v3"
    using frameD3 [OF f1] frameD3 [OF f2] frameD1 [OF f1] by linarith
next
  fix q
  assume q: "q \<noteq> data_m v" "q \<le> length (heap w)"
  show "block_at w3 q = block_at w q"
  proof (cases "q = 0")
    case True
    then show ?thesis by (simp add: block_at_null)
  next
    case False
    with q frameD3 [OF f1] have "q \<noteq> data_m v2" by linarith
    moreover have "q \<le> length (heap w2)" using q frameD1 [OF f1] by simp
    ultimately have "block_at w3 q = block_at w2 q" by (rule frameD2 [OF f2])
    also have "\<dots> = block_at w q" using q by (rule frameD2 [OF f1])
    finally show ?thesis .
  qed
qed

text \<open>A container with another buffer is not touched by a call on \<open>v\<close>.\<close>

lemma frame_other:
  assumes f: "frame v w v' w'" and "vec_inv T other w"
    and sep: "data_m other \<noteq> data_m v \<or> data_m other = 0"
  shows "block_at w' (data_m other) = block_at w (data_m other)"
    and "data_m other \<noteq> data_m v' \<or> data_m other = 0"
proof -
  have le: "data_m other \<le> length (heap w)" using assms(2) by (rule vec_inv_data_le)
  show "block_at w' (data_m other) = block_at w (data_m other)"
  proof (cases "data_m other = 0")
    case True
    then show ?thesis by (simp add: block_at_null)
  next
    case False
    with sep have "data_m other \<noteq> data_m v" by simp
    then show ?thesis using le by (rule frameD2 [OF f])
  qed
  show "data_m other \<noteq> data_m v' \<or> data_m other = 0"
    using frameD3 [OF f] sep le by linarith
qed

lemma placement_new_block:
  "placement_new T p i x w \<noteq> Undefined \<Longrightarrow> block_at w p \<noteq> None"
  by (auto simp: placement_new_def split: option.splits)

lemma copy_loop_Throw_dst:
  assumes "copy_loop T src dst i k w = Throw e w'"
  shows "block_at w dst \<noteq> None"
proof (cases k)
  case 0
  with assms show ?thesis by simp
next
  case (Suc k')
  with assms obtain x where ld: "load src i w = Some x"
    by (auto split: option.splits)
  show ?thesis
  proof (cases "placement_new T dst i x w")
    case (Return u1 w1)
    then show ?thesis using placement_new_block [of T dst i x w] by simp
  next
    case (Throw e1 w1)
    then show ?thesis using placement_new_block [of T dst i x w] by simp
  next
    case Undefined
    with assms Suc ld show ?thesis by simp
  qed
qed

lemma copy_elements_Throw_dst:
  "copy_elements T src dst n w = Throw e w' \<Longrightarrow> block_at w dst \<noteq> None"
  by (auto simp: copy_elements_def memcpy_no_Throw split: if_splits dest: copy_loop_Throw_dst)

lemma new_buffer_Throw:
  assumes nb: "new_buffer T n v w = Throw e (v', w')" and inv: "vec_inv T v w"
  shows "v' = v" and "length (heap w) \<le> length (heap w')"
    and "\<forall>q. q \<le> length (heap w) \<longrightarrow> block_at w' q = block_at w q"
proof -
  have dle: "data_m v \<le> length (heap w)" using inv by (rule vec_inv_data_le)
  from nb have "v' = v \<and>
    ((n \<noteq> 0 \<and> allocate_data T n w = Throw e w') \<or>
     (\<exists>new_data w1 w2. (n = 0 \<and> new_data = 0 \<and> w1 = w \<or>
           n \<noteq> 0 \<and> allocate_data T n w = Return new_data w1) \<and>
        size_m v \<noteq> 0 \<and>
        copy_elements T (data_m v) new_data (size_m v) w1 = Throw e w2 \<and>
        operator_delete new_data w2 = Return () w'))"
    unfolding new_buffer_def
    by (simp split: outcome.splits if_splits
        add: destroy_elements_no_Throw operator_delete_no_Throw)
  then obtain v: "v' = v" and cases: "(n \<noteq> 0 \<and> allocate_data T n w = Throw e w') \<or>
     (\<exists>new_data w1 w2. (n = 0 \<and> new_data = 0 \<and> w1 = w \<or>
           n \<noteq> 0 \<and> allocate_data T n w = Return new_data w1) \<and>
        size_m v \<noteq> 0 \<and>
        copy_elements T (data_m v) new_data (size_m v) w1 = Throw e w2 \<and>
        operator_delete new_data w2 = Return () w')"
    by (elim conjE)
  show "v' = v" by (rule v)
  from cases have "length (heap w) \<le> length (heap w') \<and>
     (\<forall>q. q \<le> length (heap w) \<longrightarrow> block_at w' q = block_at w q)"
  proof
    assume "n \<noteq> 0 \<and> allocate_data T n w = Throw e w'"
    then have "heap w' = heap w" by (auto dest: allocate_data_Throw)
    then show ?thesis using block_at_heap_eq [of w' w] by simp
  next
    assume "\<exists>new_data w1 w2. (n = 0 \<and> new_data = 0 \<and> w1 = w \<or>
           n \<noteq> 0 \<and> allocate_data T n w = Return new_data w1) \<and>
        size_m v \<noteq> 0 \<and>
        copy_elements T (data_m v) new_data (size_m v) w1 = Throw e w2 \<and>
        operator_delete new_data w2 = Return () w'"
    then obtain new_data w1 w2 where
      al: "n = 0 \<and> new_data = 0 \<and> w1 = w \<or>
           n \<noteq> 0 \<and> allocate_data T n w = Return new_data w1"
      and sz: "size_m v \<noteq> 0"
      and cp: "copy_elements T (data_m v) new_data (size_m v) w1 = Throw e w2"
      and dl: "operator_delete new_data w2 = Return () w'"
      by blast
    from cp have dst: "block_at w1 new_data \<noteq> None" by (rule copy_elements_Throw_dst)
    with al have al': "allocate_data T n w = Return new_data w1"
      by (auto simp: block_at_null)
    note a = allocate_data_Return [OF al']
    from dst obtain db where db: "block_at w1 new_data = Some db" by auto
    have neq: "data_m v \<noteq> new_data" using a(1) dle by simp
    note c = copy_elements_Throw [OF cp neq db]
    note d = operator_delete_Return [OF dl]
    have "length (heap w') = Suc (length (heap w))"
      using a(3) c(3) d(2) by simp
    moreover have "block_at w' q = block_at w q" if "q \<le> length (heap w)" for q
    proof -
      from that a(1) have "q \<noteq> new_data" by simp
      then have "block_at w' q = block_at w2 q" using d(1) by simp
      also have "\<dots> = block_at w1 q" using c(1) \<open>q \<noteq> new_data\<close> by simp
      also have "\<dots> = block_at w q" using a(2) \<open>q \<noteq> new_data\<close> by simp
      finally show ?thesis .
    qed
    ultimately show ?thesis by simp
  qed
  then show "length (heap w) \<le> length (heap w')"
    and "\<forall>q. q \<le> length (heap w) \<longrightarrow> block_at w' q = block_at w q"
    by blast+
qed



lemma block_length_less:
  assumes "0 < sizeof_T T" and "length blk * sizeof_T T < SIZE_MOD"
  shows "length (blk :: 'a list) < SIZE_MOD"
proof -
  have "length blk \<le> length blk * sizeof_T T"
    using assms(1) by (cases "sizeof_T T") simp_all
  then show ?thesis using assms(2) by (rule le_less_trans)
qed

lemma push_slot:
  assumes inv: "vec_inv T v w"
    and pn: "placement_new T (data_m v) (size_m v) x w = Return u w'"
    and v': "v' = v\<lparr>size_m := (size_m v + 1) mod SIZE_MOD\<rparr>"
  shows "size_m v' = size_m v + 1" and "vec_inv T v' w'"
    and "elems v' w' = elems v w @ [Some x]" and "frame v w v' w'"
proof -
  from pn obtain blk where blk: "block_at w (data_m v) = Some blk"
    and lt: "size_m v < length blk"
    and w': "block_at w' = (block_at w)(data_m v := Some (blk[size_m v := Some x]))"
    and len: "length (heap w') = length (heap w)"
    by (rule placement_new_Return)
  from blk have d0: "data_m v \<noteq> 0" by (cases "data_m v = 0") (simp_all add: block_at_null)
  from inv d0 blk have cap: "length blk \<le> capacity_m v" "capacity_m v \<noteq> 0"
    and bytes: "length blk * sizeof_T T < SIZE_MOD"
    and live: "None \<notin> set (take (size_m v) blk)"
    by (auto elim!: vec_inv_block)
  note basic = vec_inv_basic [OF inv]
  have "length blk < SIZE_MOD" using basic bytes by (intro block_length_less) simp_all
  with lt have "size_m v + 1 < SIZE_MOD" by simp
  then show sz: "size_m v' = size_m v + 1" using v' by simp
  let ?blk = "blk[size_m v := Some x]"
  have tk: "take (size_m v') ?blk = take (size_m v) blk @ [Some x]"
    using lt sz by (simp add: take_Suc_conv_app_nth)
  have b': "block_at w' (data_m v') = Some ?blk" using w' v' by simp
  show "vec_inv T v' w'"
    using basic cap bytes live lt sz v' d0 b' tk
    by (intro vec_invI [where blk = ?blk]) simp_all
  have "elems v' w' = take (size_m v') ?blk"
    using b' lt sz by (intro elems_take) simp_all
  also have "\<dots> = elems v w @ [Some x]"
    using tk blk lt by (simp add: elems_take)
  finally show "elems v' w' = elems v w @ [Some x]" .
  show "frame v w v' w'"
    using len w' v' by (intro frame_update) simp_all
qed

lemma calc_new_capacity_less: "calc_new_capacity v < SIZE_MOD"
  by (simp add: calc_new_capacity_def SIZE_MOD_pos) (simp add: SIZE_MOD_def)

lemma push_back_Return_cases:
  assumes "push_back T x v w = Return u (v', w')"
  shows "(size_m v = capacity_m v \<and>
      (\<exists>w1 v2 w2. copy_local T x w = Return x w1 \<and>
         new_buffer T (calc_new_capacity v) v w1 = Return () (v2, w2) \<and>
         placement_new T (data_m v2) (size_m v2) x w2 = Return () w' \<and>
         v' = v2\<lparr>size_m := (size_m v2 + 1) mod SIZE_MOD\<rparr>)) \<or>
    (size_m v \<noteq> capacity_m v \<and>
       placement_new T (data_m v) (size_m v) x w = Return () w' \<and>
       v' = v\<lparr>size_m := (size_m v + 1) mod SIZE_MOD\<rparr>)"
  using assms unfolding push_back_def
  by (auto split: outcome.splits if_splits prod.splits dest: copy_local_Return)

lemma double_no_wrap:
  assumes "c < SIZE_MOD" and "c < (c * 2) mod SIZE_MOD"
  shows "(c * 2) mod SIZE_MOD = 2 * c"
proof (rule ccontr)
  assume neq: "(c * 2) mod SIZE_MOD \<noteq> 2 * c"
  have ge: "SIZE_MOD \<le> c * 2"
  proof (rule ccontr)
    assume "\<not> SIZE_MOD \<le> c * 2"
    then have "(c * 2) mod SIZE_MOD = c * 2" by simp
    with neq show False by simp
  qed
  moreover have "c * 2 < 2 * SIZE_MOD" using assms(1) by simp
  ultimately have "(c * 2) mod SIZE_MOD = c * 2 - SIZE_MOD"
    by (simp add: mod_if less_diff_conv2)
  with assms ge show False by simp
qed

lemma push_back_Return:
  assumes pb: "push_back T x v w = Return u (v', w')" and inv: "vec_inv T v w"
  shows "vec_inv T v' w'" and "elems v' w' = elems v w @ [Some x]"
    and "size_m v' = size_m v + 1"
    and "capacity_m v' = (if size_m v = capacity_m v
           then (if capacity_m v = 0 then 1 else 2 * capacity_m v) else capacity_m v)"
    and "frame v w v' w'"
proof -
  have "vec_inv T v' w' \<and> elems v' w' = elems v w @ [Some x] \<and> size_m v' = size_m v + 1 \<and>
    capacity_m v' = (if size_m v = capacity_m v
           then (if capacity_m v = 0 then 1 else 2 * capacity_m v) else capacity_m v) \<and>
    frame v w v' w'"
    using push_back_Return_cases [OF pb]
  proof
    assume "size_m v = capacity_m v \<and>
      (\<exists>w1 v2 w2. copy_local T x w = Return x w1 \<and>
         new_buffer T (calc_new_capacity v) v w1 = Return () (v2, w2) \<and>
         placement_new T (data_m v2) (size_m v2) x w2 = Return () w' \<and>
         v' = v2\<lparr>size_m := (size_m v2 + 1) mod SIZE_MOD\<rparr>)"
    then obtain w1 v2 w2 where full: "size_m v = capacity_m v"
      and cl: "copy_local T x w = Return x w1"
      and nb: "new_buffer T (calc_new_capacity v) v w1 = Return () (v2, w2)"
      and pn: "placement_new T (data_m v2) (size_m v2) x w2 = Return () w'"
      and v': "v' = v2\<lparr>size_m := (size_m v2 + 1) mod SIZE_MOD\<rparr>"
      by blast
    have h1: "heap w1 = heap w" using copy_local_Return [OF cl] by simp
    have b1: "block_at w1 = block_at w" using h1 by (rule block_at_heap_eq)
    have inv1: "vec_inv T v w1" using inv b1 by (intro vec_inv_cong [of w1 v w v]) simp_all
    have e1: "elems v w1 = elems v w" using b1 by (intro elems_cong) simp_all
    note n = new_buffer_Return [OF nb inv1 calc_new_capacity_less]
    note p = push_slot [OF n(1) pn v']
    have f: "frame v w v' w'"
      using frame_trans [OF frame_heap_eq [OF h1, of v] frame_trans [OF n(5) p(4)]] .
    have cap': "capacity_m v' = calc_new_capacity v" using v' n(4) by simp
    have "size_m v' \<le> capacity_m v'" using vec_inv_basic [OF p(2)] by simp
    then have lt: "capacity_m v < calc_new_capacity v"
      using p(1) n(3) full cap' by simp
    have "calc_new_capacity v = (if capacity_m v = 0 then 1 else 2 * capacity_m v)"
    proof (cases "capacity_m v = 0")
      case True
      then show ?thesis by (simp add: calc_new_capacity_def)
    next
      case False
      with lt have "capacity_m v < (capacity_m v * 2) mod SIZE_MOD"
        by (simp add: calc_new_capacity_def)
      with vec_inv_basic [OF inv] have "(capacity_m v * 2) mod SIZE_MOD = 2 * capacity_m v"
        by (intro double_no_wrap) simp_all
      with False show ?thesis by (simp add: calc_new_capacity_def)
    qed
    then have c: "capacity_m v' = (if size_m v = capacity_m v
           then (if capacity_m v = 0 then 1 else 2 * capacity_m v) else capacity_m v)"
      using full cap' by simp
    have e: "elems v' w' = elems v w @ [Some x]"
      using p(3) n(2) e1 by simp
    have sz: "size_m v' = size_m v + 1"
      using p(1) n(3) by simp
    from p(2) e sz c f show ?thesis by (intro conjI)
  next
    assume "size_m v \<noteq> capacity_m v \<and>
       placement_new T (data_m v) (size_m v) x w = Return () w' \<and>
       v' = v\<lparr>size_m := (size_m v + 1) mod SIZE_MOD\<rparr>"
    then have room: "size_m v \<noteq> capacity_m v"
      and pn: "placement_new T (data_m v) (size_m v) x w = Return () w'"
      and v': "v' = v\<lparr>size_m := (size_m v + 1) mod SIZE_MOD\<rparr>"
      by blast+
    note p = push_slot [OF inv pn v']
    have c: "capacity_m v' = (if size_m v = capacity_m v
           then (if capacity_m v = 0 then 1 else 2 * capacity_m v) else capacity_m v)"
      using room v' by simp
    from p c show ?thesis by (intro conjI)
  qed
  then show "vec_inv T v' w'" and "elems v' w' = elems v w @ [Some x]"
    and "size_m v' = size_m v + 1"
    and "capacity_m v' = (if size_m v = capacity_m v
           then (if capacity_m v = 0 then 1 else 2 * capacity_m v) else capacity_m v)"
    and "frame v w v' w'"
    by blast+
qed



lemma vec_inv_heap_eq:
  assumes "heap w' = heap w" and "vec_inv T v w"
  shows "vec_inv T v w'" and "elems v w' = elems v w"
proof -
  have b: "block_at w' = block_at w" using assms(1) by (rule block_at_heap_eq)
  show "vec_inv T v w'" using assms(2) b by (intro vec_inv_cong [of w' v w v]) simp_all
  show "elems v w' = elems v w" using b by (intro elems_cong) simp_all
qed

text \<open>A state in which every block that existed is as it was.\<close>

lemma vec_inv_extend:
  assumes "\<forall>q. q \<le> length (heap w) \<longrightarrow> block_at w' q = block_at w q"
    and "length (heap w) \<le> length (heap w')" and "vec_inv T v w"
  shows "vec_inv T v w'" and "elems v w' = elems v w" and "frame v w v w'"
proof -
  have "data_m v \<le> length (heap w)" using assms(3) by (rule vec_inv_data_le)
  with assms(1) have b: "block_at w' (data_m v) = block_at w (data_m v)" by simp
  show "vec_inv T v w'" using assms(3) b by (intro vec_inv_cong [of w' v w v]) simp_all
  show "elems v w' = elems v w" using b by (intro elems_cong) simp_all
  show "frame v w v w'" using assms(1,2) by (simp add: frame_def)
qed

lemma push_back_Throw_cases:
  assumes "push_back T x v w = Throw e (v', w')"
  shows "(size_m v = capacity_m v \<and> copy_local T x w = Throw e w' \<and> v' = v) \<or>
    (size_m v = capacity_m v \<and>
      (\<exists>w1. copy_local T x w = Return x w1 \<and>
         new_buffer T (calc_new_capacity v) v w1 = Throw e (v', w'))) \<or>
    (size_m v = capacity_m v \<and>
      (\<exists>w1 w2. copy_local T x w = Return x w1 \<and>
         new_buffer T (calc_new_capacity v) v w1 = Return () (v', w2) \<and>
         placement_new T (data_m v') (size_m v') x w2 = Throw e w')) \<or>
    (size_m v \<noteq> capacity_m v \<and>
       placement_new T (data_m v) (size_m v) x w = Throw e w' \<and> v' = v)"
  using assms unfolding push_back_def
  by (auto split: outcome.splits if_splits prod.splits dest: copy_local_Return)

lemma push_back_Throw:
  assumes pb: "push_back T x v w = Throw e (v', w')" and inv: "vec_inv T v w"
  shows "vec_inv T v' w'" and "elems v' w' = elems v w" and "size_m v' = size_m v"
    and "frame v w v' w'"
proof -
  have "vec_inv T v' w' \<and> elems v' w' = elems v w \<and> size_m v' = size_m v \<and> frame v w v' w'"
    using push_back_Throw_cases [OF pb]
  proof (elim disjE)
    assume "size_m v = capacity_m v \<and> copy_local T x w = Throw e w' \<and> v' = v"
    then have h: "heap w' = heap w" and v: "v' = v"
      by (auto dest: copy_local_Throw)
    from vec_inv_heap_eq [OF h inv] frame_heap_eq [OF h, of v] v show ?thesis by simp
  next
    assume "size_m v = capacity_m v \<and>
      (\<exists>w1. copy_local T x w = Return x w1 \<and>
         new_buffer T (calc_new_capacity v) v w1 = Throw e (v', w'))"
    then obtain w1 where cl: "copy_local T x w = Return x w1"
      and nb: "new_buffer T (calc_new_capacity v) v w1 = Throw e (v', w')"
      by blast
    have h1: "heap w1 = heap w" using copy_local_Return [OF cl] by simp
    note i1 = vec_inv_heap_eq [OF h1 inv]
    note n = new_buffer_Throw [OF nb i1(1)]
    note x = vec_inv_extend [OF n(3,2) i1(1)]
    have "frame v w v w'"
      using frame_trans [OF frame_heap_eq [OF h1, of v] x(3)] .
    with x i1 n(1) show ?thesis by simp
  next
    assume "size_m v = capacity_m v \<and>
      (\<exists>w1 w2. copy_local T x w = Return x w1 \<and>
         new_buffer T (calc_new_capacity v) v w1 = Return () (v', w2) \<and>
         placement_new T (data_m v') (size_m v') x w2 = Throw e w')"
    then obtain w1 w2 where cl: "copy_local T x w = Return x w1"
      and nb: "new_buffer T (calc_new_capacity v) v w1 = Return () (v', w2)"
      and pn: "placement_new T (data_m v') (size_m v') x w2 = Throw e w'"
      by blast
    have h1: "heap w1 = heap w" using copy_local_Return [OF cl] by simp
    note i1 = vec_inv_heap_eq [OF h1 inv]
    note n = new_buffer_Return [OF nb i1(1) calc_new_capacity_less]
    have h2: "heap w' = heap w2" using pn by (rule placement_new_Throw)
    note i2 = vec_inv_heap_eq [OF h2 n(1)]
    have "frame v w v' w'"
      using frame_trans [OF frame_heap_eq [OF h1, of v]
          frame_trans [OF n(5) frame_heap_eq [OF h2, of v']]] .
    with i2 n i1 show ?thesis by simp
  next
    assume "size_m v \<noteq> capacity_m v \<and>
       placement_new T (data_m v) (size_m v) x w = Throw e w' \<and> v' = v"
    then have h: "heap w' = heap w" and v: "v' = v"
      by (auto dest: placement_new_Throw)
    from vec_inv_heap_eq [OF h inv] frame_heap_eq [OF h, of v] v show ?thesis by simp
  qed
  then show "vec_inv T v' w'" and "elems v' w' = elems v w" and "size_m v' = size_m v"
    and "frame v w v' w'"
    by blast+
qed

lemma pop_back_no_Throw: "pop_back v w \<noteq> Throw e s"
  by (auto simp: pop_back_def Let_def destroy_at_no_Throw split: outcome.splits)

lemma pop_back_Return:
  assumes pb: "pop_back v w = Return u (v', w')" and inv: "vec_inv T v w"
  shows "0 < size_m v" and "v' = v\<lparr>size_m := size_m v - 1\<rparr>" and "vec_inv T v' w'"
    and "elems v' w' = butlast (elems v w)" and "frame v w v' w'"
proof -
  let ?n = "(size_m v + SIZE_MOD - 1) mod SIZE_MOD"
  from pb have d: "destroy_at (data_m v) ?n w = Return () w'"
    and v': "v' = v\<lparr>size_m := ?n\<rparr>"
    by (auto simp: pop_back_def Let_def split: outcome.splits)
  from d obtain blk where blk: "block_at w (data_m v) = Some blk"
    and n_lt: "?n < length blk"
    and w': "block_at w' = (block_at w)(data_m v := Some (blk[?n := None]))"
    and len: "length (heap w') = length (heap w)"
    by (rule destroy_at_Return)
  from blk have d0: "data_m v \<noteq> 0" by (cases "data_m v = 0") (simp_all add: block_at_null)
  from inv d0 blk have sz: "size_m v \<le> length blk" and cap: "length blk \<le> capacity_m v"
    "capacity_m v \<noteq> 0"
    and bytes: "length blk * sizeof_T T < SIZE_MOD"
    and live: "None \<notin> set (take (size_m v) blk)"
    by (auto elim!: vec_inv_block)
  note basic = vec_inv_basic [OF inv]
  have lb: "length blk < SIZE_MOD" using basic bytes by (intro block_length_less) simp_all
  show pos: "0 < size_m v"
  proof (rule ccontr)
    assume "\<not> 0 < size_m v"
    then have "?n = SIZE_MOD - 1" by (simp add: SIZE_MOD_pos)
    with n_lt lb show False by simp
  qed
  have eq: "size_m v + SIZE_MOD - 1 = (size_m v - 1) + SIZE_MOD" using pos by simp
  have "size_m v - 1 < SIZE_MOD" using sz lb by simp
  then have n: "?n = size_m v - 1" unfolding eq by simp
  show v'': "v' = v\<lparr>size_m := size_m v - 1\<rparr>" using v' n by simp
  let ?blk = "blk[size_m v - 1 := None]"
  have b': "block_at w' (data_m v') = Some ?blk" using w' v'' n by simp
  have tk: "take (size_m v') ?blk = take (size_m v - 1) blk" using v'' by simp
  also have "\<dots> = butlast (take (size_m v) blk)"
    using pos sz by (simp add: butlast_take)
  finally have tk': "take (size_m v') ?blk = butlast (elems v w)"
    using blk sz by (simp add: elems_take)
  have "set (take (size_m v - 1) blk) \<subseteq> set (take (size_m v) blk)"
    by (rule set_take_subset_set_take) simp
  with live tk have live': "None \<notin> set (take (size_m v') ?blk)" by auto
  show "vec_inv T v' w'"
    using basic cap bytes live' sz v'' d0 b'
    by (intro vec_invI [where blk = ?blk]) simp_all
  have "elems v' w' = take (size_m v') ?blk"
    using b' sz v'' by (intro elems_take) simp_all
  with tk' show "elems v' w' = butlast (elems v w)" by simp
  show "frame v w v' w'"
    using len w' v'' by (intro frame_update) simp_all
qed



lemma destroy_elements_length:
  "destroy_elements p n w = Return u w' \<Longrightarrow> block_at w p = Some blk \<Longrightarrow>
   \<exists>blk'. block_at w' p = Some blk' \<and> length blk' = length blk"
proof (induction n arbitrary: w blk)
  case 0
  then show ?case by simp
next
  case (Suc n)
  from Suc.prems(1) obtain w1 where d: "destroy_at p n w = Return () w1"
    and r: "destroy_elements p n w1 = Return u w'"
    by (auto split: outcome.splits)
  from d Suc.prems(2) have "block_at w1 p = Some (blk[n := None])"
    by (auto elim!: destroy_at_Return)
  from Suc.IH [OF r this] show ?case by simp
qed

lemma clear_no_Throw: "clear v w \<noteq> Throw e s"
  by (auto simp: clear_def destroy_elements_no_Throw split: outcome.splits)

lemma clear_Return:
  assumes cl: "clear v w = Return u (v', w')" and inv: "vec_inv T v w"
  shows "v' = v\<lparr>size_m := 0\<rparr>" and "vec_inv T v' w'" and "elems v' w' = []"
    and "frame v w v' w'"
proof -
  from cl have d: "destroy_elements (data_m v) (size_m v) w = Return () w'"
    and v': "v' = v\<lparr>size_m := 0\<rparr>"
    by (auto simp: clear_def split: outcome.splits)
  note de = destroy_elements_Return [OF d]
  show "v' = v\<lparr>size_m := 0\<rparr>" by (rule v')
  show "elems v' w' = []" using v' by (simp add: elems_empty)
  show "frame v w v' w'" using de v' by (intro frame_update) simp_all
  show "vec_inv T v' w'"
  proof (cases "data_m v = 0")
    case True
    with inv v' show ?thesis
      using vec_inv_basic [OF inv] by (intro vec_inv_nullI) (auto dest: vec_inv_null)
  next
    case False
    with inv obtain blk where blk: "block_at w (data_m v) = Some blk"
      and cap: "length blk \<le> capacity_m v" "capacity_m v \<noteq> 0"
      and bytes: "length blk * sizeof_T T < SIZE_MOD"
      by (rule vec_inv_block)
    from destroy_elements_length [OF d blk] obtain blk' where
      "block_at w' (data_m v) = Some blk'" "length blk' = length blk" by blast
    with cap bytes False v' vec_inv_basic [OF inv] show ?thesis
      by (intro vec_invI [where blk = blk']) simp_all
  qed
qed

lemma dtor_no_Throw: "dtor v w \<noteq> Throw e w'"
  by (auto simp: dtor_def clear_no_Throw operator_delete_no_Throw
      split: outcome.splits prod.splits)

lemma dtor_Return:
  assumes "dtor v w = Return u w'"
  shows "length (heap w') = length (heap w)"
    and "\<forall>q. q \<noteq> data_m v \<longrightarrow> block_at w' q = block_at w q"
    and "block_at w' (data_m v) = None"
proof -
  from assms obtain w1 where d: "destroy_elements (data_m v) (size_m v) w = Return () w1"
    and del: "operator_delete (data_m v) w1 = Return () w'"
    by (auto simp: dtor_def clear_def split: outcome.splits prod.splits)
  note de = destroy_elements_Return [OF d]
  note dl = operator_delete_Return [OF del]
  show "length (heap w') = length (heap w)" using de dl by simp
  show "\<forall>q. q \<noteq> data_m v \<longrightarrow> block_at w' q = block_at w q" using de dl by simp
  show "block_at w' (data_m v) = None" using dl by simp
qed

lemma copy_ctor_Return:
  assumes cc: "copy_ctor T other w = Return c w'" and inv: "vec_inv T other w"
  shows "vec_inv T c w'" and "elems c w' = elems other w"
    and "size_m c = size_m other" and "capacity_m c = size_m other"
    and "length (heap w) \<le> length (heap w')"
    and "\<forall>q. q \<le> length (heap w) \<longrightarrow> block_at w' q = block_at w q"
    and "data_m c = 0 \<or> length (heap w) < data_m c"
    and "size_m other = 0 \<longrightarrow> c = default_ctor \<and> w' = w"
proof -
  note basic = vec_inv_basic [OF inv]
  have "vec_inv T c w' \<and> elems c w' = elems other w \<and> size_m c = size_m other \<and>
    capacity_m c = size_m other \<and> length (heap w) \<le> length (heap w') \<and>
    (\<forall>q. q \<le> length (heap w) \<longrightarrow> block_at w' q = block_at w q) \<and>
    (data_m c = 0 \<or> length (heap w) < data_m c) \<and>
    (size_m other = 0 \<longrightarrow> c = default_ctor \<and> w' = w)"
  proof (cases "size_m other = 0")
    case True
    with cc have "c = default_ctor" "w' = w" by (simp_all add: copy_ctor_def)
    with True basic show ?thesis
      by (simp add: elems_empty default_ctor_def vec_inv_nullI)
  next
    case False
    with cc obtain p w1 where al: "allocate_data T (size_m other) w = Return p w1"
      and cp: "copy_elements T (data_m other) p (size_m other) w1 = Return () w'"
      and c: "c = \<lparr>data_m = p, size_m = size_m other, capacity_m = size_m other\<rparr>"
      by (auto simp: copy_ctor_def split: outcome.splits)
    from False inv have d0: "data_m other \<noteq> 0" by (auto dest: vec_inv_null)
    from inv d0 obtain sb where sb: "block_at w (data_m other) = Some sb"
      and szsb: "size_m other \<le> length sb"
      and bytes: "length sb * sizeof_T T < SIZE_MOD"
      and live: "None \<notin> set (take (size_m other) sb)"
      by (rule vec_inv_block)
    have dle: "data_m other \<le> length (heap w)" using inv by (rule vec_inv_data_le)
    note a = allocate_data_Return [OF al]
    have "size_m other * sizeof_T T \<le> length sb * sizeof_T T"
      using szsb by (rule mult_le_mono1)
    then have szb: "size_m other * sizeof_T T < SIZE_MOD" using bytes by (rule le_less_trans)
    let ?k = "(size_m other * sizeof_T T) mod SIZE_MOD div sizeof_T T"
    have k: "?k = size_m other" using basic szb by simp
    have neq: "data_m other \<noteq> p" using a(1) dle by simp
    have sb1: "block_at w1 (data_m other) = Some sb" using a(2) neq sb by simp
    have db1: "block_at w1 p = Some (replicate (size_m other) None)" using a(2) k by simp
    have s: "0 < sizeof_T T" using basic by simp
    note ce = copy_elements_Return [OF cp neq sb1 db1 szb s]
    have bc: "block_at w' (data_m c) = Some (take (size_m other) sb)"
      using ce(3) c by simp
    have "elems c w' = take (size_m c) (take (size_m other) sb)"
      using bc c szsb by (intro elems_take) simp_all
    then have e: "elems c w' = elems other w"
      using c szsb sb by (simp add: elems_take [of w other])
    have i: "vec_inv T c w'"
      using bc c szsb live s szb basic False a(1)
      by (intro vec_invI [where blk = "take (size_m other) sb"]) simp_all
    have fr: "\<forall>q. q \<le> length (heap w) \<longrightarrow> block_at w' q = block_at w q"
      using ce(3) a(1,2) by simp
    from i e fr c a ce(4) False show ?thesis by simp
  qed
  then show "vec_inv T c w'" and "elems c w' = elems other w"
    and "size_m c = size_m other" and "capacity_m c = size_m other"
    and "length (heap w) \<le> length (heap w')"
    and "\<forall>q. q \<le> length (heap w) \<longrightarrow> block_at w' q = block_at w q"
    and "data_m c = 0 \<or> length (heap w) < data_m c"
    and "size_m other = 0 \<longrightarrow> c = default_ctor \<and> w' = w"
    by blast+
qed



lemma dtor_default: "dtor default_ctor w = Return () w"
  by (simp add: dtor_def clear_def default_ctor_def operator_delete_def)

lemma swap_eq: "swap v other = (other, v)"
  by (cases v, cases other) (simp add: swap_def)

lemma copy_ctor_Throw:
  assumes cc: "copy_ctor T other w = Throw e w'" and inv: "vec_inv T other w"
  shows "length (heap w) \<le> length (heap w')"
    and "\<forall>q. q \<le> length (heap w) \<longrightarrow> block_at w' q = block_at w q"
proof -
  have dle: "data_m other \<le> length (heap w)" using inv by (rule vec_inv_data_le)
  from cc have "allocate_data T (size_m other) w = Throw e w' \<or>
    (\<exists>p w1 w2. allocate_data T (size_m other) w = Return p w1 \<and>
       copy_elements T (data_m other) p (size_m other) w1 = Throw e w2 \<and>
       dtor (default_ctor\<lparr>data_m := p\<rparr>) w2 = Return () w')"
    by (simp add: copy_ctor_def dtor_default dtor_no_Throw split: if_splits outcome.splits)
  then have "length (heap w) \<le> length (heap w') \<and>
    (\<forall>q. q \<le> length (heap w) \<longrightarrow> block_at w' q = block_at w q)"
  proof
    assume "allocate_data T (size_m other) w = Throw e w'"
    then have "heap w' = heap w" by (rule allocate_data_Throw)
    then show ?thesis using block_at_heap_eq [of w' w] by simp
  next
    assume "\<exists>p w1 w2. allocate_data T (size_m other) w = Return p w1 \<and>
       copy_elements T (data_m other) p (size_m other) w1 = Throw e w2 \<and>
       dtor (default_ctor\<lparr>data_m := p\<rparr>) w2 = Return () w'"
    then obtain p w1 w2 where al: "allocate_data T (size_m other) w = Return p w1"
      and cp: "copy_elements T (data_m other) p (size_m other) w1 = Throw e w2"
      and dt: "dtor (default_ctor\<lparr>data_m := p\<rparr>) w2 = Return () w'"
      by blast
    note a = allocate_data_Return [OF al]
    have neq: "data_m other \<noteq> p" using a(1) dle by simp
    have db: "block_at w1 p = Some (replicate ((size_m other * sizeof_T T) mod SIZE_MOD div sizeof_T T) None)"
      using a(2) by simp
    note c = copy_elements_Throw [OF cp neq db]
    note d = dtor_Return [OF dt]
    have "length (heap w') = Suc (length (heap w))"
      using a(3) c(3) d(1) by simp
    moreover have "block_at w' q = block_at w q" if "q \<le> length (heap w)" for q
    proof -
      from that a(1) have qp: "q \<noteq> p" by simp
      then have "block_at w' q = block_at w2 q" using d(2) by simp
      also have "\<dots> = block_at w1 q" using c(1) qp by simp
      also have "\<dots> = block_at w q" using a(2) qp by simp
      finally show ?thesis .
    qed
    ultimately show ?thesis by simp
  qed
  then show "length (heap w) \<le> length (heap w')"
    and "\<forall>q. q \<le> length (heap w) \<longrightarrow> block_at w' q = block_at w q"
    by blast+
qed

lemma operator_assign_Return:
  assumes oa: "operator_assign T same v other w = Return u (v', w')"
    and inv: "vec_inv T v w" and invo: "vec_inv T other w"
  shows "vec_inv T v' w'" and "frame v w v' w'"
    and "\<not> same \<longrightarrow> elems v' w' = elems other w \<and> size_m v' = size_m other \<and>
           capacity_m v' = size_m other"
    and "same \<longrightarrow> v' = v \<and> w' = w"
proof -
  have "vec_inv T v' w' \<and> frame v w v' w' \<and>
    (\<not> same \<longrightarrow> elems v' w' = elems other w \<and> size_m v' = size_m other \<and>
           capacity_m v' = size_m other) \<and>
    (same \<longrightarrow> v' = v \<and> w' = w)"
  proof (cases same)
    case True
    with oa have "v' = v" "w' = w" by (simp_all add: operator_assign_def)
    with True inv show ?thesis by (simp add: frame_refl)
  next
    case False
    with oa obtain tmp w1 where cc: "copy_ctor T other w = Return tmp w1"
      and dt: "dtor v w1 = Return () w'" and v': "v' = tmp"
      by (auto simp: operator_assign_def swap_eq split: outcome.splits)
    note c = copy_ctor_Return [OF cc invo]
    note d = dtor_Return [OF dt]
    have dle: "data_m v \<le> length (heap w)" using inv by (rule vec_inv_data_le)
    have b: "block_at w' (data_m tmp) = block_at w1 (data_m tmp)"
    proof (cases "data_m tmp = 0")
      case True
      then show ?thesis by (simp add: block_at_null)
    next
      case False
      with c(7) dle have "data_m tmp \<noteq> data_m v" by simp
      with d(2) show ?thesis by simp
    qed
    have i: "vec_inv T tmp w'"
      using b c(1) by (intro vec_inv_cong [of w' tmp w1 tmp]) simp_all
    have e: "elems tmp w' = elems other w"
      using elems_cong [of w' tmp w1 tmp] b c(2) by simp
    have f: "frame v w tmp w'"
      unfolding frame_def
    proof (intro conjI allI impI)
      show "length (heap w) \<le> length (heap w')" using c(5) d(1) by simp
      show "data_m tmp = data_m v \<or> data_m tmp = 0 \<or> length (heap w) < data_m tmp"
        using c(7) by simp
    next
      fix q
      assume "q \<noteq> data_m v" "q \<le> length (heap w)"
      then show "block_at w' q = block_at w q" using d(2) c(6) by simp
    qed
    from i e f c(3,4) v' False show ?thesis by simp
  qed
  then show "vec_inv T v' w'" and "frame v w v' w'"
    and "\<not> same \<longrightarrow> elems v' w' = elems other w \<and> size_m v' = size_m other \<and>
           capacity_m v' = size_m other"
    and "same \<longrightarrow> v' = v \<and> w' = w"
    by blast+
qed

lemma operator_assign_Throw:
  assumes oa: "operator_assign T same v other w = Throw e (v', w')"
    and invo: "vec_inv T other w"
  shows "v' = v" and "length (heap w) \<le> length (heap w')"
    and "\<forall>q. q \<le> length (heap w) \<longrightarrow> block_at w' q = block_at w q"
proof -
  from oa have cc: "copy_ctor T other w = Throw e w'" and v': "v' = v"
    by (auto simp: operator_assign_def swap_eq dtor_no_Throw
        split: outcome.splits if_splits)
  show "v' = v" by (rule v')
  show "length (heap w) \<le> length (heap w')"
    and "\<forall>q. q \<le> length (heap w) \<longrightarrow> block_at w' q = block_at w q"
    using copy_ctor_Throw [OF cc invo] by simp_all
qed

lemma reserve_Return:
  assumes r: "reserve T n v w = Return u (v', w')" and inv: "vec_inv T v w"
    and n: "n < SIZE_MOD"
  shows "vec_inv T v' w'" and "elems v' w' = elems v w" and "size_m v' = size_m v"
    and "capacity_m v' = (if capacity_m v < n then n else capacity_m v)"
    and "frame v w v' w'" and "n \<le> capacity_m v \<longrightarrow> v' = v \<and> w' = w"
proof -
  have "vec_inv T v' w' \<and> elems v' w' = elems v w \<and> size_m v' = size_m v \<and>
    capacity_m v' = (if capacity_m v < n then n else capacity_m v) \<and>
    frame v w v' w' \<and> (n \<le> capacity_m v \<longrightarrow> v' = v \<and> w' = w)"
  proof (cases "capacity_m v < n")
    case True
    with r have "new_buffer T n v w = Return u (v', w')" by (simp add: reserve_def)
    from new_buffer_Return [OF this inv n] True show ?thesis by simp
  next
    case False
    with r have "v' = v" "w' = w" by (simp_all add: reserve_def)
    with False inv show ?thesis by (simp add: frame_refl)
  qed
  then show "vec_inv T v' w'" and "elems v' w' = elems v w" and "size_m v' = size_m v"
    and "capacity_m v' = (if capacity_m v < n then n else capacity_m v)"
    and "frame v w v' w'" and "n \<le> capacity_m v \<longrightarrow> v' = v \<and> w' = w"
    by blast+
qed

lemma reserve_Throw:
  assumes r: "reserve T n v w = Throw e (v', w')" and inv: "vec_inv T v w"
  shows "v' = v" and "length (heap w) \<le> length (heap w')"
    and "\<forall>q. q \<le> length (heap w) \<longrightarrow> block_at w' q = block_at w q"
proof -
  from r have "new_buffer T n v w = Throw e (v', w')"
    by (simp add: reserve_def split: if_splits)
  from new_buffer_Throw [OF this inv]
  show "v' = v" and "length (heap w) \<le> length (heap w')"
    and "\<forall>q. q \<le> length (heap w) \<longrightarrow> block_at w' q = block_at w q"
    by simp_all
qed

lemma shrink_to_fit_Return:
  assumes r: "shrink_to_fit T v w = Return u (v', w')" and inv: "vec_inv T v w"
  shows "vec_inv T v' w'" and "elems v' w' = elems v w" and "size_m v' = size_m v"
    and "capacity_m v' = size_m v" and "frame v w v' w'"
    and "size_m v = capacity_m v \<longrightarrow> v' = v \<and> w' = w"
proof -
  note basic = vec_inv_basic [OF inv]
  have "vec_inv T v' w' \<and> elems v' w' = elems v w \<and> size_m v' = size_m v \<and>
    capacity_m v' = size_m v \<and> frame v w v' w' \<and>
    (size_m v = capacity_m v \<longrightarrow> v' = v \<and> w' = w)"
  proof (cases "size_m v < capacity_m v")
    case True
    with r have nb: "new_buffer T (size_m v) v w = Return u (v', w')"
      by (simp add: shrink_to_fit_def)
    have "size_m v < SIZE_MOD" using basic by simp
    from new_buffer_Return [OF nb inv this] True show ?thesis by simp
  next
    case False
    with r have "v' = v" "w' = w" by (simp_all add: shrink_to_fit_def)
    with False inv basic show ?thesis by (simp add: frame_refl)
  qed
  then show "vec_inv T v' w'" and "elems v' w' = elems v w" and "size_m v' = size_m v"
    and "capacity_m v' = size_m v" and "frame v w v' w'"
    and "size_m v = capacity_m v \<longrightarrow> v' = v \<and> w' = w"
    by blast+
qed

lemma shrink_to_fit_Throw:
  assumes r: "shrink_to_fit T v w = Throw e (v', w')" and inv: "vec_inv T v w"
  shows "v' = v" and "length (heap w) \<le> length (heap w')"
    and "\<forall>q. q \<le> length (heap w) \<longrightarrow> block_at w' q = block_at w q"
proof -
  from r have "new_buffer T (size_m v) v w = Throw e (v', w')"
    by (simp add: shrink_to_fit_def split: if_splits)
  from new_buffer_Throw [OF this inv]
  show "v' = v" and "length (heap w) \<le> length (heap w')"
    and "\<forall>q. q \<le> length (heap w) \<longrightarrow> block_at w' q = block_at w q"
    by simp_all
qed



lemma keeps_live_refl: "keeps_live blk blk"
  by (simp add: keeps_live_def)

lemma keeps_live_trans: "keeps_live a b \<Longrightarrow> keeps_live b c \<Longrightarrow> keeps_live a c"
  by (simp add: keeps_live_def)

lemma keeps_live_take:
  assumes "keeps_live blk blk'" and "None \<notin> set (take m blk)"
  shows "None \<notin> set (take m blk')"
proof
  assume "None \<in> set (take m blk')"
  then obtain j where j: "j < length (take m blk')" "take m blk' ! j = None"
    by (auto simp: in_set_conv_nth)
  then have jm: "j < m" "j < length blk" "blk' ! j = None"
    using assms(1) by (simp_all add: keeps_live_def)
  with assms(1) have "blk ! j = None" by (auto simp: keeps_live_def)
  with jm have "take m blk ! j = None" "j < length (take m blk)" by simp_all
  then have "None \<in> set (take m blk)" by (metis nth_mem)
  with assms(2) show False by simp
qed

lemma keeps_live_swap:
  assumes "i < length blk" "j < length blk" "blk ! i \<noteq> None" "blk ! j \<noteq> None"
  shows "keeps_live blk (blk[i := blk ! j, j := blk ! i])"
    and "keeps_live blk (blk[i := blk ! j])"
  using assms by (auto simp: keeps_live_def nth_list_update)

lemma std_swap_keeps_live:
  assumes "std_swap T p i j w = Return u w' \<or> std_swap T p i j w = Throw e w'"
    and "block_at w p = Some blk"
  shows "\<exists>blk'. block_at w' = (block_at w)(p := Some blk') \<and> keeps_live blk blk' \<and>
    length (heap w') = length (heap w)"
  using assms(1)
proof
  assume "std_swap T p i j w = Return u w'"
  then obtain b where b: "block_at w p = Some b" "i < length b" "j < length b"
    "b ! i \<noteq> None" "b ! j \<noteq> None"
    and w': "block_at w' = (block_at w)(p := Some (b[i := b ! j, j := b ! i]))"
      "length (heap w') = length (heap w)"
    by (rule std_swap_Return)
  from b assms(2) have "b = blk" by simp
  with b w' keeps_live_swap(1) [of i blk j] show ?thesis
    by (intro exI [of _ "blk[i := blk ! j, j := blk ! i]"]) simp
next
  assume "std_swap T p i j w = Throw e w'"
  then obtain b b' where b: "block_at w p = Some b" "i < length b" "j < length b"
    "b ! i \<noteq> None" "b ! j \<noteq> None" and b': "b' = b \<or> b' = b[i := b ! j]"
    and w': "block_at w' = (block_at w)(p := Some b')"
      "length (heap w') = length (heap w)"
    by (rule std_swap_Throw)
  from b assms(2) have "b = blk" by simp
  with b b' keeps_live_swap(2) [of i blk j] keeps_live_refl [of blk]
  have "keeps_live blk b'" by auto
  with w' show ?thesis by (intro exI [of _ b']) simp
qed


lemma insert_loop_same: "insert_loop T p i i w = Return () w"
  by (subst insert_loop.simps) simp


lemma insert_loop_keeps_live:
  "insert_loop T p i cur w = Return u w' \<or> insert_loop T p i cur w = Throw e w' \<Longrightarrow>
   block_at w p = Some blk \<Longrightarrow>
   \<exists>blk'. block_at w' = (block_at w)(p := Some blk') \<and> keeps_live blk blk' \<and>
     length (heap w') = length (heap w)"
proof (induction T p i cur w arbitrary: blk rule: insert_loop.induct)
  case (1 T p i cur w)
  show ?case
  proof (cases "i = cur")
    case True
    with "1.prems"(1) have "w' = w" by (simp add: insert_loop_same)
    moreover have "(block_at w)(p := Some blk) = block_at w"
      using "1.prems"(2) by (simp add: fun_upd_idem)
    ultimately show ?thesis using keeps_live_refl [of blk] by (intro exI [of _ blk]) simp
  next
    case False
    from "1.prems"(1) False have guard: "\<not> i \<le> 0"
      by (subst (asm) (1 2) insert_loop.simps) (auto split: if_splits)
    show ?thesis
    proof (cases "std_swap T p (nat i) (nat (i - 1)) w")
      case (Return u1 w1)
      with False guard "1.prems"(1)
      have rest: "insert_loop T p (i - 1) cur w1 = Return u w' \<or>
        insert_loop T p (i - 1) cur w1 = Throw e w'"
        by (subst (asm) (1 2) insert_loop.simps) simp
      from std_swap_keeps_live [OF disjI1 [OF Return] "1.prems"(2)] obtain blk1 where
        b1: "block_at w1 = (block_at w)(p := Some blk1)" and k1: "keeps_live blk blk1"
        and l1: "length (heap w1) = length (heap w)" by blast
      have "block_at w1 p = Some blk1" using b1 by simp
      from "1.IH" [OF False guard Return rest this] obtain blk' where
        "block_at w' = (block_at w1)(p := Some blk')" "keeps_live blk1 blk'"
        "length (heap w') = length (heap w1)" by blast
      with b1 k1 l1 keeps_live_trans [of blk blk1 blk'] show ?thesis
        by (intro exI [of _ blk']) simp
    next
      case (Throw e1 w1)
      with False guard "1.prems"(1) have "w' = w1"
        by (subst (asm) (1 2) insert_loop.simps) simp
      then show ?thesis
        using std_swap_keeps_live [OF disjI2 [OF Throw] "1.prems"(2)] by blast
    next
      case Undefined
      with False guard "1.prems"(1) show ?thesis
        by (subst (asm) (1 2) insert_loop.simps) simp
    qed
  qed
qed




lemma vec_inv_keeps_live:
  assumes inv: "vec_inv T v w" and blk: "block_at w (data_m v) = Some blk"
    and w': "block_at w' = (block_at w)(data_m v := Some blk')"
    and kl: "keeps_live blk blk'" and len: "length (heap w') = length (heap w)"
  shows "vec_inv T v w'" and "frame v w v w'"
proof -
  from blk have d0: "data_m v \<noteq> 0" by (cases "data_m v = 0") (simp_all add: block_at_null)
  from inv d0 blk have sz: "size_m v \<le> length blk" and cap: "length blk \<le> capacity_m v"
    "capacity_m v \<noteq> 0"
    and bytes: "length blk * sizeof_T T < SIZE_MOD"
    and live: "None \<notin> set (take (size_m v) blk)"
    by (auto elim!: vec_inv_block)
  have l: "length blk' = length blk" using kl by (simp add: keeps_live_def)
  have "None \<notin> set (take (size_m v) blk')" using kl live by (rule keeps_live_take)
  with sz cap bytes l d0 w' vec_inv_basic [OF inv] show "vec_inv T v w'"
    by (intro vec_invI [where blk = blk']) simp_all
  show "frame v w v w'" using len w' by (intro frame_update) simp_all
qed

lemma insert_vector_cases:
  assumes "insert_vector T (data_m v, int p) x v w = r"
  shows "r = (case push_back T x v w of
             Undefined \<Rightarrow> Undefined
           | Throw e s \<Rightarrow> Throw e s
           | Return u (v1, w1) \<Rightarrow>
               (case insert_loop T (data_m v1) (int (size_m v1) - 1) (int p) w1 of
                  Undefined \<Rightarrow> Undefined
                | Throw e w2 \<Rightarrow> Throw e (v1, w2)
                | Return u' w2 \<Rightarrow> Return (data_m v1, int p) (v1, w2)))"
  using assms
  by (auto simp: insert_vector_def ptr_diff_def begin_it_def end_it_def Let_def
      split: outcome.splits prod.splits)




lemma insert_vector_Throw:
  assumes ins: "insert_vector T (data_m v, int p) x v w = Throw e (v', w')"
    and inv: "vec_inv T v w"
  shows "vec_inv T v' w'" and "frame v w v' w'"
proof -
  from insert_vector_cases [OF ins]
  have "push_back T x v w = Throw e (v', w') \<or>
    (\<exists>w1. push_back T x v w = Return () (v', w1) \<and>
       insert_loop T (data_m v') (int (size_m v') - 1) (int p) w1 = Throw e w')"
    by (auto split: outcome.splits prod.splits)
  then have "vec_inv T v' w' \<and> frame v w v' w'"
  proof
    assume "push_back T x v w = Throw e (v', w')"
    from push_back_Throw [OF this inv] show ?thesis by simp
  next
    assume "\<exists>w1. push_back T x v w = Return () (v', w1) \<and>
       insert_loop T (data_m v') (int (size_m v') - 1) (int p) w1 = Throw e w'"
    then obtain w1 where pb: "push_back T x v w = Return () (v', w1)"
      and il: "insert_loop T (data_m v') (int (size_m v') - 1) (int p) w1 = Throw e w'"
      by blast
    note b = push_back_Return [OF pb inv]
    have n: "int (size_m v') - 1 = int (size_m v)" using b(3) by simp
    from b(1) have d0: "data_m v' \<noteq> 0"
      using b(3) by (auto dest: vec_inv_null)
    from b(1) d0 obtain blk where blk: "block_at w1 (data_m v') = Some blk"
      by (rule vec_inv_block)
    from insert_loop_keeps_live [OF disjI2 [OF il [unfolded n]] blk] obtain blk' where
      w': "block_at w' = (block_at w1)(data_m v' := Some blk')" and kl: "keeps_live blk blk'"
      and hl: "length (heap w') = length (heap w1)" by blast
    note k = vec_inv_keeps_live [OF b(1) blk w' kl hl]
    from k(1) frame_trans [OF b(5) k(2)] show ?thesis by simp
  qed
  then show "vec_inv T v' w'" and "frame v w v' w'" by simp_all
qed

lemma erase_loop_same: "erase_loop T p i i cnt w = Return () w"
  by (subst erase_loop.simps) simp

lemma erase_loop_keeps_live:
  "erase_loop T p i stop cnt w = Return u w' \<or> erase_loop T p i stop cnt w = Throw e w' \<Longrightarrow>
   block_at w p = Some blk \<Longrightarrow>
   \<exists>blk'. block_at w' = (block_at w)(p := Some blk') \<and> keeps_live blk blk' \<and>
     length (heap w') = length (heap w)"
proof (induction T p i stop cnt w arbitrary: blk rule: erase_loop.induct)
  case (1 T p i stop cnt w)
  show ?case
  proof (cases "i = stop")
    case True
    with "1.prems"(1) have "w' = w" by (simp add: erase_loop_same)
    moreover have "(block_at w)(p := Some blk) = block_at w"
      using "1.prems"(2) by (simp add: fun_upd_idem)
    ultimately show ?thesis using keeps_live_refl [of blk] by (intro exI [of _ blk]) simp
  next
    case False
    from "1.prems"(1) False have guard: "\<not> (i < 0 \<or> cnt \<le> 0 \<or> int (block_len w p) \<le> i + cnt)"
      by (subst (asm) (1 2) erase_loop.simps) (auto split: if_splits)
    show ?thesis
    proof (cases "std_swap T p (nat i) (nat (i + cnt)) w")
      case (Return u1 w1)
      with False guard "1.prems"(1)
      have rest: "erase_loop T p (i + 1) stop cnt w1 = Return u w' \<or>
        erase_loop T p (i + 1) stop cnt w1 = Throw e w'"
        by (subst (asm) (1 2) erase_loop.simps) simp
      from std_swap_keeps_live [OF disjI1 [OF Return] "1.prems"(2)] obtain blk1 where
        b1: "block_at w1 = (block_at w)(p := Some blk1)" and k1: "keeps_live blk blk1"
        and l1: "length (heap w1) = length (heap w)" by blast
      have "block_at w1 p = Some blk1" using b1 by simp
      from "1.IH" [OF False guard Return rest this] obtain blk' where
        "block_at w' = (block_at w1)(p := Some blk')" "keeps_live blk1 blk'"
        "length (heap w') = length (heap w1)" by blast
      with b1 k1 l1 keeps_live_trans [of blk blk1 blk'] show ?thesis
        by (intro exI [of _ blk']) simp
    next
      case (Throw e1 w1)
      with False guard "1.prems"(1) have "w' = w1"
        by (subst (asm) (1 2) erase_loop.simps) simp
      then show ?thesis
        using std_swap_keeps_live [OF disjI2 [OF Throw] "1.prems"(2)] by blast
    next
      case Undefined
      with False guard "1.prems"(1) show ?thesis
        by (subst (asm) (1 2) erase_loop.simps) simp
    qed
  qed
qed

lemma erase_loop_Return:
  "erase_loop T p i stop cnt w = Return u w' \<Longrightarrow> 0 \<le> i \<Longrightarrow> i \<le> stop \<Longrightarrow>
   block_at w p = Some blk \<Longrightarrow>
   \<exists>blk'. block_at w' p = Some blk' \<and> length blk' = length blk \<and>
     (\<forall>j. int j < i \<longrightarrow> blk' ! j = blk ! j) \<and>
     (\<forall>j. i \<le> int j \<and> int j < stop \<longrightarrow> blk' ! j = blk ! (j + nat cnt)) \<and>
     (i < stop \<longrightarrow> 0 < cnt \<and> stop + cnt \<le> int (length blk))"
proof (induction T p i stop cnt w arbitrary: blk rule: erase_loop.induct)
  case (1 T p i stop cnt w)
  show ?case
  proof (cases "i = stop")
    case True
    with "1.prems"(1) have "w' = w" by (simp add: erase_loop_same)
    with True "1.prems" show ?thesis by auto
  next
    case False
    from "1.prems"(1) False have guard: "\<not> (i < 0 \<or> cnt \<le> 0 \<or> int (block_len w p) \<le> i + cnt)"
      by (subst (asm) erase_loop.simps) (auto split: if_splits)
    with False "1.prems"(1) obtain w1 where
      sw: "std_swap T p (nat i) (nat (i + cnt)) w = Return () w1"
      and rest: "erase_loop T p (i + 1) stop cnt w1 = Return u w'"
      by (subst (asm) erase_loop.simps) (auto split: outcome.splits)
    let ?a = "nat i" and ?b = "nat (i + cnt)"
    let ?blk1 = "blk[?a := blk ! ?b, ?b := blk ! ?a]"
    from sw "1.prems"(4) have b1: "block_at w1 p = Some ?blk1"
      by (auto elim!: std_swap_Return)
    have i1: "0 \<le> i + 1" "i + 1 \<le> stop" using "1.prems"(2,3) False by simp_all
    from "1.IH" [OF False guard sw rest i1 b1] obtain blk' where
      b': "block_at w' p = Some blk'" and len: "length blk' = length blk"
      and lo: "\<forall>j. int j < i + 1 \<longrightarrow> blk' ! j = ?blk1 ! j"
      and hi: "\<forall>j. i + 1 \<le> int j \<and> int j < stop \<longrightarrow> blk' ! j = ?blk1 ! (j + nat cnt)"
      and bd: "i + 1 < stop \<longrightarrow> 0 < cnt \<and> stop + cnt \<le> int (length blk)"
      by auto
    have cnt: "0 < cnt" and ib: "i + cnt < int (length blk)"
      using guard "1.prems"(4) by (simp_all add: block_len_def)
    have ab: "?a < ?b" "?a < length blk" "?b < length blk"
      using cnt ib "1.prems"(2) by simp_all
    have lo': "blk' ! j = blk ! j" if "int j < i" for j
    proof -
      from that have "j \<noteq> ?a" "j \<noteq> ?b" using cnt by simp_all
      with lo that show ?thesis by simp
    qed
    have hi': "blk' ! j = blk ! (j + nat cnt)" if "i \<le> int j" "int j < stop" for j
    proof (cases "int j = i")
      case True
      then have j: "j = ?a" by simp
      have "j + nat cnt = ?b" using True "1.prems"(2) cnt by (simp add: nat_add_distrib)
      moreover have "blk' ! j = ?blk1 ! j" using lo True by simp
      ultimately show ?thesis using j ab by simp
    next
      case False
      with that have j1: "i + 1 \<le> int j" by simp
      then have "j + nat cnt \<noteq> ?a" "j + nat cnt \<noteq> ?b"
        using cnt "1.prems"(2) by (simp_all add: nat_add_distrib)
      with hi j1 that show ?thesis by simp
    qed
    have bd': "stop + cnt \<le> int (length blk)"
    proof (cases "i + 1 < stop")
      case True
      with bd show ?thesis by simp
    next
      case False
      with i1 have "stop = i + 1" by simp
      with ib show ?thesis by simp
    qed
    from b' len lo' hi' cnt bd' show ?thesis by blast
  qed
qed



lemma pop_back_n_no_Throw: "pop_back_n k v w \<noteq> Throw e s"
  by (induction k arbitrary: v w) (auto simp: pop_back_no_Throw split: outcome.splits)

lemma pop_back_n_Return:
  "pop_back_n k v w = Return u (v', w') \<Longrightarrow> vec_inv T v w \<Longrightarrow>
   k \<le> size_m v \<and> v' = v\<lparr>size_m := size_m v - k\<rparr> \<and> vec_inv T v' w' \<and>
   elems v' w' = take (size_m v - k) (elems v w) \<and> frame v w v' w'"
proof (induction k arbitrary: v w)
  case 0
  then show ?case by (simp add: frame_refl length_elems)
next
  case (Suc k)
  from Suc.prems(1) obtain v1 w1 where pb: "pop_back v w = Return () (v1, w1)"
    and rest: "pop_back_n k v1 w1 = Return u (v', w')"
    by (auto split: outcome.splits prod.splits)
  note p = pop_back_Return [OF pb Suc.prems(2)]
  note ih = Suc.IH [OF rest p(3)]
  have sz1: "size_m v1 = size_m v - 1" using p(2) by simp
  have "k \<le> size_m v1" using ih by simp
  with sz1 p(1) have k: "Suc k \<le> size_m v" by simp
  have "v' = v1\<lparr>size_m := size_m v1 - k\<rparr>" using ih by blast
  then have v': "v' = v\<lparr>size_m := size_m v - Suc k\<rparr>"
    using p(2) by simp
  have "elems v' w' = take (size_m v1 - k) (elems v1 w1)"
    using ih by blast
  also have "\<dots> = take (size_m v1 - k) (butlast (elems v w))"
    unfolding p(4) ..
  also have "\<dots> = take (size_m v - Suc k) (elems v w)"
    using sz1 p(1) by (simp add: take_butlast length_elems)
  finally have e: "elems v' w' = take (size_m v - Suc k) (elems v w)" .
  have f: "frame v w v' w'" using frame_trans [OF p(5)] ih by blast
  from k v' ih e f show ?case by blast
qed

lemma erase_noop:
  assumes "l \<le> f"
  shows "erase T (data_m v, f) (data_m v, l) v w = Return (data_m v, l) (v, w)"
  using assms by (simp add: erase_def ptr_diff_def begin_it_def)

lemma erase_cases:
  assumes "f < l"
  shows "erase T (data_m v, int f) (data_m v, int l) v w =
    (case erase_loop T (data_m v) (int f) (int (size_m v) - int (l - f)) (int (l - f)) w of
       Undefined \<Rightarrow> Undefined
     | Throw e w1 \<Rightarrow> Throw e (v, w1)
     | Return u w1 \<Rightarrow>
         (case pop_back_n (l - f) v w1 of
            Undefined \<Rightarrow> Undefined
          | Throw e s \<Rightarrow> Throw e s
          | Return u' (v2, w2) \<Rightarrow> Return (data_m v2, int f) (v2, w2)))"
proof -
  have "nat (int l - int f) = l - f" by simp
  then show ?thesis
    using assms
    by (auto simp: erase_def ptr_diff_def begin_it_def end_it_def Let_def
        split: outcome.splits prod.splits)
qed

lemma erase_Return:
  assumes er: "erase T (data_m v, int f) (data_m v, int l) v w = Return it (v', w')"
    and inv: "vec_inv T v w" and fl: "f < l" and ls: "l \<le> size_m v"
  shows "vec_inv T v' w'" and "frame v w v' w'"
    and "v' = v\<lparr>size_m := size_m v - (l - f)\<rparr>"
    and "elems v' w' = take f (elems v w) @ drop l (elems v w)"
    and "it = (data_m v', int f)"
    and "\<exists>w1. erase_loop T (data_m v) (int f) (int (size_m v) - int (l - f)) (int (l - f)) w
            = Return () w1 \<and> pop_back_n (l - f) v w1 = Return () (v', w')"
proof -
  let ?cnt = "l - f"
  let ?stop = "int (size_m v) - int ?cnt"
  from er [unfolded erase_cases [OF fl]] obtain w1 where
    el: "erase_loop T (data_m v) (int f) ?stop (int ?cnt) w = Return () w1"
    and pn: "pop_back_n ?cnt v w1 = Return () (v', w')"
    and it: "it = (data_m v', int f)"
    by (auto split: outcome.splits prod.splits)
  have sz0: "size_m v \<noteq> 0" using fl ls by simp
  with inv have d0: "data_m v \<noteq> 0" by (auto dest: vec_inv_null)
  from inv d0 obtain blk where blk: "block_at w (data_m v) = Some blk"
    and sz: "size_m v \<le> length blk"
    by (rule vec_inv_block)
  from erase_loop_keeps_live [OF disjI1 [OF el] blk] obtain blk1 where
    w1: "block_at w1 = (block_at w)(data_m v := Some blk1)" and kl: "keeps_live blk blk1"
    and hl: "length (heap w1) = length (heap w)" by blast
  note k = vec_inv_keeps_live [OF inv blk w1 kl hl]
  note pp = pop_back_n_Return [OF pn k(1)]
  show "vec_inv T v' w'" using pp by blast
  show "frame v w v' w'" using frame_trans [OF k(2)] pp by blast
  show v': "v' = v\<lparr>size_m := size_m v - ?cnt\<rparr>" using pp by blast
  show "it = (data_m v', int f)" by (rule it)
  show "\<exists>w1. erase_loop T (data_m v) (int f) ?stop (int ?cnt) w = Return () w1 \<and>
      pop_back_n ?cnt v w1 = Return () (v', w')"
    using el pn by blast
  have stop: "?stop = int (size_m v - ?cnt)" "int f \<le> ?stop" using fl ls by simp_all
  have b1: "block_at w1 (data_m v) = Some blk1" using w1 by simp
  from erase_loop_Return [OF el _ stop(2) blk] b1 have
    lo: "\<forall>j. int j < int f \<longrightarrow> blk1 ! j = blk ! j"
    and hi: "\<forall>j. int f \<le> int j \<and> int j < ?stop \<longrightarrow> blk1 ! j = blk ! (j + nat (int ?cnt))"
    by auto
  have l1: "length blk1 = length blk" using kl by (simp add: keeps_live_def)
  have e: "elems v w = take (size_m v) blk" using blk sz by (rule elems_take)
  have e1: "elems v w1 = take (size_m v) blk1" using b1 sz l1 by (intro elems_take) simp_all
  have "elems v' w' = take (size_m v - ?cnt) (elems v w1)" using pp by blast
  also have "\<dots> = take (size_m v - ?cnt) blk1" using e1 by (simp add: min_def)
  also have "\<dots> = take f (elems v w) @ drop l (elems v w)"
  proof (rule nth_equalityI)
    show "length (take (size_m v - ?cnt) blk1) = length (take f (elems v w) @ drop l (elems v w))"
      using sz l1 fl ls by (simp add: length_elems)
  next
    fix j
    assume "j < length (take (size_m v - ?cnt) blk1)"
    then have j: "j < size_m v - ?cnt" by simp
    show "take (size_m v - ?cnt) blk1 ! j = (take f (elems v w) @ drop l (elems v w)) ! j"
    proof (cases "j < f")
      case True
      with lo j fl ls sz show ?thesis
        by (simp add: nth_append length_elems e)
    next
      case False
      then have "int f \<le> int j" "int j < ?stop" using j fl ls by simp_all
      with hi have "blk1 ! j = blk ! (j + ?cnt)" by simp
      moreover have jl: "j + ?cnt = l + (j - f)" using False fl by simp
      moreover have lt: "l + (j - f) < size_m v" using j False fl ls by simp
      moreover have "drop l (take (size_m v) blk) ! (j - f) = blk ! (l + (j - f))"
        using lt sz by simp
      moreover have "length (take f (take (size_m v) blk)) = f"
        using fl ls sz by simp
      ultimately show ?thesis using False j
        by (simp add: nth_append e)
    qed
  qed
  finally show "elems v' w' = take f (elems v w) @ drop l (elems v w)" .
qed

lemma erase_Throw:
  assumes er: "erase T (data_m v, f) (data_m v, l) v w = Throw e (v', w')"
    and inv: "vec_inv T v w"
  shows "v' = v" and "vec_inv T v' w'" and "frame v w v' w'"
proof -
  from er have el: "erase_loop T (data_m v) f (int (size_m v) - (l - f)) (l - f) w = Throw e w'"
    and v': "v' = v"
    by (auto simp: erase_def ptr_diff_def begin_it_def end_it_def Let_def pop_back_n_no_Throw
        split: outcome.splits prod.splits if_splits)
  show "v' = v" by (rule v')
  have "vec_inv T v w' \<and> frame v w v w'"
  proof (cases "block_at w (data_m v)")
    case None
    from el have "f \<noteq> int (size_m v) - (l - f)" by (auto simp: erase_loop_same)
    with el None show ?thesis
      by (subst (asm) erase_loop.simps) (simp add: block_len_def split: if_splits)
  next
    case (Some blk)
    from erase_loop_keeps_live [OF disjI2 [OF el] Some] obtain blk' where
      "block_at w' = (block_at w)(data_m v := Some blk')" "keeps_live blk blk'"
      "length (heap w') = length (heap w)" by blast
    from vec_inv_keeps_live [OF inv Some this] show ?thesis by simp
  qed
  with v' show "vec_inv T v' w'" and "frame v w v' w'" by simp_all
qed



text \<open>Every call that returns or throws keeps the invariant and the frame.\<close>

lemma insert_vector_inv:
  assumes ins: "insert_vector T pos x v w = Return it (v', w') \<or>
      insert_vector T pos x v w = Throw e (v', w')"
    and inv: "vec_inv T v w"
  shows "vec_inv T v' w' \<and> frame v w v' w'"
proof -
  from ins obtain ind where ind: "ptr_diff pos (begin_it v) = Some ind"
    by (auto simp: insert_vector_def split: option.splits)
  from ins ind have "push_back T x v w = Throw e (v', w') \<or>
    (\<exists>w1. push_back T x v w = Return () (v', w1) \<and>
       (insert_loop T (data_m v') (int (size_m v') - 1) ind w1 = Return () w' \<or>
        insert_loop T (data_m v') (int (size_m v') - 1) ind w1 = Throw e w'))"
    by (auto simp: insert_vector_def end_it_def Let_def split: outcome.splits prod.splits)
  then show ?thesis
  proof
    assume "push_back T x v w = Throw e (v', w')"
    from push_back_Throw [OF this inv] show ?thesis by simp
  next
    assume "\<exists>w1. push_back T x v w = Return () (v', w1) \<and>
       (insert_loop T (data_m v') (int (size_m v') - 1) ind w1 = Return () w' \<or>
        insert_loop T (data_m v') (int (size_m v') - 1) ind w1 = Throw e w')"
    then obtain w1 where pb: "push_back T x v w = Return () (v', w1)"
      and il: "insert_loop T (data_m v') (int (size_m v') - 1) ind w1 = Return () w' \<or>
        insert_loop T (data_m v') (int (size_m v') - 1) ind w1 = Throw e w'"
      by blast
    note b = push_back_Return [OF pb inv]
    from b(1) have d0: "data_m v' \<noteq> 0"
      using b(3) by (auto dest: vec_inv_null)
    from b(1) d0 obtain blk where blk: "block_at w1 (data_m v') = Some blk"
      by (rule vec_inv_block)
    from insert_loop_keeps_live [OF il blk] obtain blk' where
      w': "block_at w' = (block_at w1)(data_m v' := Some blk')" and kl: "keeps_live blk blk'"
      and hl: "length (heap w') = length (heap w1)" by blast
    note k = vec_inv_keeps_live [OF b(1) blk w' kl hl]
    from k(1) frame_trans [OF b(5) k(2)] show ?thesis by simp
  qed
qed

lemma erase_inv:
  assumes er: "erase T first_it last_it v w = Return it (v', w') \<or>
      erase T first_it last_it v w = Throw e (v', w')"
    and inv: "vec_inv T v w"
  shows "vec_inv T v' w' \<and> frame v w v' w'"
proof -
  from er obtain f l where f: "ptr_diff first_it (begin_it v) = Some f"
    and l: "ptr_diff last_it (begin_it v) = Some l"
    by (auto simp: erase_def split: option.splits)
  have fi: "first_it = (data_m v, f)" and li: "last_it = (data_m v, l)"
    using f l by (cases first_it; cases last_it;
        auto simp: ptr_diff_def begin_it_def split: if_splits)+
  show ?thesis
  proof (cases "l - f \<le> 0")
    case True
    then have "erase T first_it last_it v w = Return (data_m v, l) (v, w)"
      unfolding fi li by (intro erase_noop) simp
    with er inv show ?thesis by (auto simp: frame_refl)
  next
    case False
    from er show ?thesis
    proof
      assume "erase T first_it last_it v w = Throw e (v', w')"
      from erase_Throw [OF this [unfolded fi li] inv] show ?thesis by simp
    next
      assume r: "erase T first_it last_it v w = Return it (v', w')"
      with False f l obtain w1 where
        el: "erase_loop T (data_m v) f (int (size_m v) - (l - f)) (l - f) w = Return () w1"
        and pn: "pop_back_n (nat (l - f)) v w1 = Return () (v', w')"
        by (auto simp: erase_def end_it_def Let_def split: outcome.splits prod.splits)
      have "block_at w (data_m v) \<noteq> None"
      proof
        assume none: "block_at w (data_m v) = None"
        have "f \<noteq> int (size_m v) - (l - f) \<or> f = int (size_m v) - (l - f)" by simp
        then show False
        proof
          assume "f \<noteq> int (size_m v) - (l - f)"
          with el none show False
            by (subst (asm) erase_loop.simps) (simp add: block_len_def split: if_splits)
        next
          assume eq: "f = int (size_m v) - (l - f)"
          with el have w1: "w1 = w" by (simp add: erase_loop_same)
          from False obtain k where k: "nat (l - f) = Suc k" by (cases "nat (l - f)") auto
          from pn [unfolded k w1] obtain v2 w2 where "pop_back v w = Return () (v2, w2)"
            by (auto split: outcome.splits prod.splits)
          from pop_back_Return(1) [OF this inv] inv none show False
            by (cases "data_m v = 0") (auto dest: vec_inv_null elim: vec_inv_block)
        qed
      qed
      then obtain blk where blk: "block_at w (data_m v) = Some blk" by auto
      from erase_loop_keeps_live [OF disjI1 [OF el] blk] obtain blk1 where
        w1: "block_at w1 = (block_at w)(data_m v := Some blk1)" and kl: "keeps_live blk blk1"
        and hl: "length (heap w1) = length (heap w)" by blast
      note k = vec_inv_keeps_live [OF inv blk w1 kl hl]
      note pp = pop_back_n_Return [OF pn k(1)]
      have "vec_inv T v' w'" using pp by blast
      moreover have "frame v w v' w'" using frame_trans [OF k(2)] pp by blast
      ultimately show ?thesis ..
    qed
  qed
qed


lemma call_inv:
  assumes c: "call T c v w = Return u (v', w') \<or> call T c v w = Throw e (v', w')"
    and wf: "wf_call c" and inv: "vec_inv T v w"
  shows "vec_inv T v' w' \<and> frame v w v' w'"
proof (cases c)
  case (Push_back x)
  with c have "push_back T x v w = Return u (v', w') \<or> push_back T x v w = Throw e (v', w')"
    by simp
  then show ?thesis
    using push_back_Return [OF _ inv, of x u v' w'] push_back_Throw [OF _ inv, of x e v' w']
    by blast
next
  case Pop_back
  with c have "pop_back v w = Return u (v', w')" by (simp add: pop_back_no_Throw)
  from pop_back_Return [OF this inv] show ?thesis by simp
next
  case (Reserve n)
  with c have r: "reserve T n v w = Return u (v', w') \<or> reserve T n v w = Throw e (v', w')"
    by simp
  from Reserve wf have n: "n < SIZE_MOD" by simp
  from r show ?thesis
  proof
    assume "reserve T n v w = Return u (v', w')"
    from reserve_Return [OF this inv n] show ?thesis by simp
  next
    assume "reserve T n v w = Throw e (v', w')"
    from reserve_Throw [OF this inv] vec_inv_extend [of w w' T v] inv show ?thesis by simp
  qed
next
  case Shrink_to_fit
  with c have r: "shrink_to_fit T v w = Return u (v', w') \<or>
      shrink_to_fit T v w = Throw e (v', w')"
    by simp
  then show ?thesis
  proof
    assume "shrink_to_fit T v w = Return u (v', w')"
    from shrink_to_fit_Return [OF this inv] show ?thesis by simp
  next
    assume "shrink_to_fit T v w = Throw e (v', w')"
    from shrink_to_fit_Throw [OF this inv] vec_inv_extend [of w w' T v] inv
    show ?thesis by simp
  qed
next
  case Clear
  with c have "clear v w = Return u (v', w')" by (simp add: clear_no_Throw)
  from clear_Return [OF this inv] show ?thesis by simp
next
  case (Insert pos x)
  with c have "(\<exists>it. insert_vector T pos x v w = Return it (v', w')) \<or>
      insert_vector T pos x v w = Throw e (v', w')"
    by (auto split: outcome.splits)
  then show ?thesis using insert_vector_inv [OF _ inv] by blast
next
  case (Erase f l)
  with c have "(\<exists>it. erase T f l v w = Return it (v', w')) \<or>
      erase T f l v w = Throw e (v', w')"
    by (auto split: outcome.splits)
  then show ?thesis using erase_inv [OF _ inv] by blast
next
  case (Erase1 pos)
  with c have "(\<exists>it. erase T pos (fst pos, snd pos + 1) v w = Return it (v', w')) \<or>
      erase T pos (fst pos, snd pos + 1) v w = Throw e (v', w')"
    by (auto simp: erase1_def split: outcome.splits)
  then show ?thesis using erase_inv [OF _ inv] by blast
qed

text \<open>A call on \<open>v\<close> leaves every container with another buffer as it was.\<close>

lemma frame_keeps_other:
  assumes f: "frame v w v' w'" and inv: "vec_inv T other w"
    and sep: "data_m other \<noteq> data_m v \<or> data_m other = 0"
  shows "vec_inv T other w'" and "elems other w' = elems other w"
    and "data_m other \<noteq> data_m v' \<or> data_m other = 0"
proof -
  note o = frame_other [OF f inv sep]
  show "vec_inv T other w'" using o(1) inv by (intro vec_inv_cong [of w' other w other]) simp_all
  show "elems other w' = elems other w" using o(1) by (intro elems_cong) simp_all
  show "data_m other \<noteq> data_m v' \<or> data_m other = 0" by (rule o(2))
qed



lemma sys_inv_update:
  assumes si: "sys_inv T (vs, w)" and i: "i < length vs"
    and inv': "vec_inv T v' w'" and f: "frame (vs ! i) w v' w'"
  shows "sys_inv T (vs[i := v'], w')"
  unfolding sys_inv_def
proof (intro conjI allI impI)
  fix k
  assume "k < length (fst (vs[i := v'], w'))"
  then have k: "k < length vs" by simp
  show "vec_inv T (fst (vs[i := v'], w') ! k) (snd (vs[i := v'], w'))"
  proof (cases "k = i")
    case True
    with i inv' show ?thesis by simp
  next
    case False
    from si k have ik: "vec_inv T (vs ! k) w" by (simp add: sys_inv_def)
    from si k i False have "data_m (vs ! k) \<noteq> data_m (vs ! i) \<or> data_m (vs ! k) = 0"
      by (simp add: sys_inv_def)
    from frame_keeps_other(1) [OF f ik this] False show ?thesis by simp
  qed
next
  fix k m
  assume "k < length (fst (vs[i := v'], w'))" "m < length (fst (vs[i := v'], w'))" "k \<noteq> m"
  then have km: "k < length vs" "m < length vs" "k \<noteq> m" by simp_all
  have other: "data_m (vs ! n) \<noteq> data_m v' \<or> data_m (vs ! n) = 0"
    if "n < length vs" "n \<noteq> i" for n
  proof -
    from si that have ik: "vec_inv T (vs ! n) w" by (simp add: sys_inv_def)
    from si that i have "data_m (vs ! n) \<noteq> data_m (vs ! i) \<or> data_m (vs ! n) = 0"
      by (simp add: sys_inv_def)
    from frame_keeps_other(3) [OF f ik this] show ?thesis .
  qed
  have old: "data_m (vs ! k) \<noteq> data_m (vs ! m) \<or> data_m (vs ! k) = 0"
    using si km by (simp add: sys_inv_def)
  show "data_m (fst (vs[i := v'], w') ! k) \<noteq> data_m (fst (vs[i := v'], w') ! m) \<or>
      data_m (fst (vs[i := v'], w') ! k) = 0"
  proof (cases "k = i")
    case True
    with km have "m \<noteq> i" by simp
    from other [OF km(2) this] True km i show ?thesis by auto
  next
    case False
    show ?thesis
    proof (cases "m = i")
      case True
      from other [OF km(1) False] True False km i show ?thesis by auto
    next
      case mi: False
      with False old km show ?thesis by simp
    qed
  qed
qed

lemma sys_inv_extend:
  assumes si: "sys_inv T (vs, w)"
    and ext: "\<forall>q. q \<le> length (heap w) \<longrightarrow> block_at w' q = block_at w q"
      "length (heap w) \<le> length (heap w')"
  shows "sys_inv T (vs, w')"
  unfolding sys_inv_def
proof (intro conjI allI impI)
  fix k
  assume "k < length (fst (vs, w'))"
  then have "vec_inv T (vs ! k) w" using si by (simp add: sys_inv_def)
  from vec_inv_extend(1) [OF ext this] show "vec_inv T (fst (vs, w') ! k) (snd (vs, w'))"
    by simp
next
  fix k m
  assume "k < length (fst (vs, w'))" "m < length (fst (vs, w'))" "k \<noteq> m"
  with si show "data_m (fst (vs, w') ! k) \<noteq> data_m (fst (vs, w') ! m) \<or>
      data_m (fst (vs, w') ! k) = 0"
    by (simp add: sys_inv_def)
qed

lemma sys_inv_append:
  assumes si: "sys_inv T (vs, w')" and inv: "vec_inv T c w'"
    and fresh: "\<forall>k < length vs. data_m c \<noteq> data_m (vs ! k) \<or> data_m c = 0"
  shows "sys_inv T (vs @ [c], w')"
  unfolding sys_inv_def
proof (intro conjI allI impI)
  fix k
  assume "k < length (fst (vs @ [c], w'))"
  then have "k < length vs \<or> k = length vs" by auto
  then show "vec_inv T (fst (vs @ [c], w') ! k) (snd (vs @ [c], w'))"
    using si inv by (auto simp: sys_inv_def nth_append)
next
  fix k m
  assume km: "k < length (fst (vs @ [c], w'))" "m < length (fst (vs @ [c], w'))" "k \<noteq> m"
  have c0: "data_m c \<noteq> data_m (vs ! n) \<or> data_m (vs ! n) = 0" if "n < length vs" for n
  proof (cases "data_m c = 0")
    case True
    then show ?thesis by auto
  next
    case False
    with fresh that show ?thesis by auto
  qed
  show "data_m (fst (vs @ [c], w') ! k) \<noteq> data_m (fst (vs @ [c], w') ! m) \<or>
      data_m (fst (vs @ [c], w') ! k) = 0"
  proof (cases "k < length vs")
    case True
    show ?thesis
    proof (cases "m < length vs")
      case m: True
      with True km si show ?thesis by (simp add: sys_inv_def nth_append)
    next
      case False
      with km have "m = length vs" by simp
      with True c0 [OF True] show ?thesis by (auto simp: nth_append)
    qed
  next
    case False
    with km have k: "k = length vs" and m: "m < length vs" by simp_all
    with fresh show ?thesis by (auto simp: nth_append)
  qed
qed

lemma sys_inv_swap:
  assumes si: "sys_inv T (vs, w)" and i: "i < length vs" and j: "j < length vs"
  shows "sys_inv T (vs[i := vs ! j, j := vs ! i], w)"
proof -
  let ?vs = "vs[i := vs ! j, j := vs ! i]"
  define pi where "pi k = (if k = j then i else if k = i then j else k)" for k
  have nth: "?vs ! k = vs ! pi k" if "k < length vs" for k
    using that i j by (auto simp: pi_def nth_list_update)
  have lt: "pi k < length vs" if "k < length vs" for k
    using that i j by (simp add: pi_def)
  have inj: "pi k \<noteq> pi m" if "k \<noteq> m" for k m
    using that by (auto simp: pi_def split: if_splits)
  show ?thesis
    unfolding sys_inv_def
  proof (intro conjI allI impI)
    fix k
    assume "k < length (fst (?vs, w))"
    then have k: "k < length vs" by simp
    from si lt [OF k] have "vec_inv T (vs ! pi k) w" by (simp add: sys_inv_def)
    with nth [OF k] show "vec_inv T (fst (?vs, w) ! k) (snd (?vs, w))" by simp
  next
    fix k m
    assume "k < length (fst (?vs, w))" "m < length (fst (?vs, w))" "k \<noteq> m"
    then have km: "k < length vs" "m < length vs" "k \<noteq> m" by simp_all
    from si lt [OF km(1)] lt [OF km(2)] inj [OF km(3)]
    have "data_m (vs ! pi k) \<noteq> data_m (vs ! pi m) \<or> data_m (vs ! pi k) = 0"
      by (simp add: sys_inv_def)
    with nth [OF km(1)] nth [OF km(2)]
    show "data_m (fst (?vs, w) ! k) \<noteq> data_m (fst (?vs, w) ! m) \<or> data_m (fst (?vs, w) ! k) = 0"
      by simp
  qed
qed

lemma exec_inv:
  assumes ex: "exec T c (vs, w) = Return u s' \<or> exec T c (vs, w) = Throw e s'"
    and wf: "wf_sys_call c" and si: "sys_inv T (vs, w)" and sz: "0 < sizeof_T T"
  shows "sys_inv T s'"
proof (cases c)
  case Construct
  with ex have s': "s' = (vs @ [default_ctor], w)" by auto
  have "vec_inv T default_ctor w" using sz by (intro vec_inv_nullI) (simp_all add: default_ctor_def)
  with si show ?thesis unfolding s'
    by (intro sys_inv_append) (simp_all add: default_ctor_def)
next
  case (Copy_construct j)
  with ex have j: "j < length vs" by (auto split: if_splits)
  from si j have ij: "vec_inv T (vs ! j) w" by (simp add: sys_inv_def)
  from ex Copy_construct j have
    "(\<exists>c' w'. copy_ctor T (vs ! j) w = Return c' w' \<and> s' = (vs @ [c'], w')) \<or>
     (\<exists>w'. copy_ctor T (vs ! j) w = Throw e w' \<and> s' = (vs, w'))"
    by (auto split: outcome.splits)
  then show ?thesis
  proof (elim disjE exE conjE)
    fix c' w'
    assume cc: "copy_ctor T (vs ! j) w = Return c' w'" and s': "s' = (vs @ [c'], w')"
    note r = copy_ctor_Return [OF cc ij]
    have si': "sys_inv T (vs, w')" using si r(6,5) by (rule sys_inv_extend)
    have "data_m c' \<noteq> data_m (vs ! k) \<or> data_m c' = 0" if "k < length vs" for k
    proof -
      from si that have "vec_inv T (vs ! k) w" by (simp add: sys_inv_def)
      then have "data_m (vs ! k) \<le> length (heap w)" by (rule vec_inv_data_le)
      with r(7) show ?thesis by auto
    qed
    with si' r(1) show ?thesis unfolding s' by (intro sys_inv_append) simp_all
  next
    fix w'
    assume cc: "copy_ctor T (vs ! j) w = Throw e w'" and s': "s' = (vs, w')"
    note r = copy_ctor_Throw [OF cc ij]
    show ?thesis unfolding s' using si r(2,1) by (rule sys_inv_extend)
  qed
next
  case (Copy_assign i j)
  with ex have ij: "i < length vs" "j < length vs" by (auto split: if_splits)
  from si ij have inv: "vec_inv T (vs ! i) w" "vec_inv T (vs ! j) w" by (simp_all add: sys_inv_def)
  from ex Copy_assign ij have
    "(\<exists>v' w'. operator_assign T (i = j) (vs ! i) (vs ! j) w = Return () (v', w') \<and>
        s' = (vs[i := v'], w')) \<or>
     (\<exists>v' w'. operator_assign T (i = j) (vs ! i) (vs ! j) w = Throw e (v', w') \<and>
        s' = (vs[i := v'], w'))"
    by (auto split: outcome.splits prod.splits)
  then show ?thesis
  proof (elim disjE exE conjE)
    fix v' w'
    assume oa: "operator_assign T (i = j) (vs ! i) (vs ! j) w = Return () (v', w')"
      and s': "s' = (vs[i := v'], w')"
    note r = operator_assign_Return [OF oa inv]
    show ?thesis unfolding s' using si ij(1) r(1,2) by (rule sys_inv_update)
  next
    fix v' w'
    assume oa: "operator_assign T (i = j) (vs ! i) (vs ! j) w = Throw e (v', w')"
      and s': "s' = (vs[i := v'], w')"
    note r = operator_assign_Throw [OF oa inv(2)]
    have "sys_inv T (vs, w')" using si r(3,2) by (rule sys_inv_extend)
    with r(1) show ?thesis unfolding s' by simp
  qed
next
  case (Swap i j)
  with ex have ij: "i < length vs" "j < length vs" by (auto split: if_splits)
  with ex Swap have "s' = (vs[i := vs ! j, j := vs ! i], w)"
    by (auto simp: swap_eq)
  with sys_inv_swap [OF si ij] show ?thesis by simp
next
  case (Member i mc)
  with ex have i: "i < length vs" by (auto split: if_splits)
  from si i have inv: "vec_inv T (vs ! i) w" by (simp add: sys_inv_def)
  from Member wf have wfc: "wf_call mc" by simp
  from ex Member i obtain u1 e1 v' w' where
    c: "call T mc (vs ! i) w = Return u1 (v', w') \<or> call T mc (vs ! i) w = Throw e1 (v', w')"
    and s': "s' = (vs[i := v'], w')"
    by (auto split: outcome.splits prod.splits)
  from call_inv [OF c wfc inv] have "vec_inv T v' w'" "frame (vs ! i) w v' w'" by simp_all
  with si i show ?thesis unfolding s' by (intro sys_inv_update)
qed

lemma reachable_sys_inv:
  "reachable T s \<Longrightarrow> 0 < sizeof_T T \<Longrightarrow> sys_inv T s"
proof (induction rule: reachable.induct)
  case (start w)
  show ?case by (simp add: sys_inv_def)
next
  case (returns s c u s')
  then show ?case using exec_inv [of T c "fst s" "snd s" u s'] by simp
next
  case (throws s c e s')
  then show ?case using exec_inv [of T c "fst s" "snd s" _ s' e] by simp
qed


lemma push_back_capacity_changes:
  assumes pb: "push_back T x v w = Return u (v', w')" and inv: "vec_inv T v w"
  shows "capacity_m v' \<noteq> capacity_m v \<longleftrightarrow> size_m v = capacity_m v"
  using push_back_Return(4) [OF pb inv] by auto

lemma push_back_seq_split:
  "push_back_seq T (ys @ x # zs) v w = Return u (v', w') \<Longrightarrow>
   \<exists>v1 w1 v2 w2. push_back_seq T ys v w = Return () (v1, w1) \<and>
      push_back T x v1 w1 = Return () (v2, w2) \<and>
      push_back_seq T zs v2 w2 = Return u (v', w')"
proof (induction ys arbitrary: v w)
  case Nil
  then show ?case by (auto split: outcome.splits prod.splits)
next
  case (Cons y ys)
  from Cons.prems obtain v0 w0 where pb: "push_back T y v w = Return () (v0, w0)"
    and rest: "push_back_seq T (ys @ x # zs) v0 w0 = Return u (v', w')"
    by (auto split: outcome.splits prod.splits)
  from Cons.IH [OF rest] pb show ?case by auto
qed

lemma pow2_least:
  assumes "n \<le> 2 ^ k" and "(2::nat) ^ k < 2 * n" and "n \<le> 2 ^ j"
  shows "(2::nat) ^ k \<le> 2 ^ j"
proof (rule ccontr)
  assume "\<not> (2::nat) ^ k \<le> 2 ^ j"
  then have "(2::nat) ^ j < 2 ^ k" by simp
  then have "j < k" by (simp add: power_strict_increasing_iff)
  then have "Suc j \<le> k" by simp
  then have "(2::nat) ^ Suc j \<le> 2 ^ k" by (intro power_increasing) simp_all
  with assms(2,3) show False by simp
qed

lemma push_back_seq_inv:
  "push_back_seq T xs v w = Return u (v', w') \<Longrightarrow> vec_inv T v w \<Longrightarrow>
   (size_m v = 0 \<and> capacity_m v = 0) \<or>
     (\<exists>k. capacity_m v = 2 ^ k \<and> size_m v \<le> capacity_m v \<and> capacity_m v < 2 * size_m v) \<Longrightarrow>
   vec_inv T v' w' \<and> size_m v' = size_m v + length xs \<and>
   elems v' w' = elems v w @ map Some xs \<and>
   ((size_m v' = 0 \<and> capacity_m v' = 0) \<or>
     (\<exists>k. capacity_m v' = 2 ^ k \<and> size_m v' \<le> capacity_m v' \<and>
        capacity_m v' < 2 * size_m v'))"
proof (induction xs arbitrary: v w)
  case Nil
  then show ?case by auto
next
  case (Cons x xs)
  from Cons.prems(1) obtain v1 w1 where pb: "push_back T x v w = Return () (v1, w1)"
    and rest: "push_back_seq T xs v1 w1 = Return u (v', w')"
    by (auto split: outcome.splits prod.splits)
  note p = push_back_Return [OF pb Cons.prems(2)]
  have sched: "(size_m v1 = 0 \<and> capacity_m v1 = 0) \<or>
     (\<exists>k. capacity_m v1 = 2 ^ k \<and> size_m v1 \<le> capacity_m v1 \<and>
        capacity_m v1 < 2 * size_m v1)"
    using Cons.prems(3)
  proof
    assume "size_m v = 0 \<and> capacity_m v = 0"
    with p(3,4) have "capacity_m v1 = 2 ^ 0" "size_m v1 = 1" by simp_all
    then have "capacity_m v1 = 2 ^ 0 \<and> size_m v1 \<le> capacity_m v1 \<and>
        capacity_m v1 < 2 * size_m v1" by simp
    then show ?thesis by blast
  next
    assume "\<exists>k. capacity_m v = 2 ^ k \<and> size_m v \<le> capacity_m v \<and>
        capacity_m v < 2 * size_m v"
    then obtain k where k: "capacity_m v = 2 ^ k" "size_m v \<le> capacity_m v"
      "capacity_m v < 2 * size_m v" by blast
    show ?thesis
    proof (cases "size_m v = capacity_m v")
      case True
      with k p(3,4) have "capacity_m v1 = 2 ^ Suc k \<and> size_m v1 \<le> capacity_m v1 \<and>
        capacity_m v1 < 2 * size_m v1" by auto
      then show ?thesis by blast
    next
      case False
      with k p(3,4) have "capacity_m v1 = 2 ^ k \<and> size_m v1 \<le> capacity_m v1 \<and>
        capacity_m v1 < 2 * size_m v1" by auto
      then show ?thesis by blast
    qed
  qed
  note ih = Cons.IH [OF rest p(1) sched]
  have a: "vec_inv T v' w'" using ih by blast
  have "size_m v' = size_m v1 + length xs" using ih by blast
  then have b: "size_m v' = size_m v + length (x # xs)" using p(3) by simp
  have "elems v' w' = elems v1 w1 @ map Some xs" using ih by blast
  then have c: "elems v' w' = elems v w @ map Some (x # xs)" using p(2) by simp
  have d: "(size_m v' = 0 \<and> capacity_m v' = 0) \<or>
     (\<exists>k. capacity_m v' = 2 ^ k \<and> size_m v' \<le> capacity_m v' \<and>
        capacity_m v' < 2 * size_m v')" using ih by blast
  from a b c d show ?case by blast
qed



section \<open>Calls that return\<close>

text \<open>
  \<^verbatim>\<open>erase\<close> on a range inside the live elements never has undefined behaviour,
  and it returns when no failure is scheduled.
\<close>

lemma next_fault_quiet:
  "nothing_throws w \<Longrightarrow> \<exists>w'. next_fault w = (False, w') \<and> nothing_throws w'"
  by (cases "faults w") (auto simp: next_fault_def nothing_throws_def)

lemma elem_op_quiet:
  "nothing_throws w \<Longrightarrow> \<exists>w'. elem_op T w = (False, w') \<and> nothing_throws w'"
  using next_fault_quiet [of w] by (auto simp: elem_op_def)

lemma std_swap_quiet:
  assumes "block_at w p = Some blk" and "i < length blk" and "j < length blk"
    and "blk ! i \<noteq> None" and "blk ! j \<noteq> None" and "nothing_throws w"
  shows "\<exists>w'. std_swap T p i j w = Return () w' \<and> nothing_throws w'"
proof -
  from elem_op_quiet [OF assms(6)] obtain w1 where
    w1: "elem_op T w = (False, w1)" "nothing_throws w1" by blast
  from elem_op_quiet [OF w1(2)] obtain w2 where
    w2: "elem_op T w1 = (False, w2)" "nothing_throws w2" by blast
  from elem_op_quiet [OF w2(2)] obtain w3 where
    w3: "elem_op T w2 = (False, w3)" "nothing_throws w3" by blast
  from assms(1-5) w1 w2 w3 show ?thesis
    by (simp add: std_swap_def nothing_throws_def faults_set_block)
qed

lemma take_live:
  "None \<notin> set (take n blk) \<Longrightarrow> j < n \<Longrightarrow> j < length blk \<Longrightarrow> blk ! j \<noteq> None"
  by (metis in_set_conv_nth length_take min_less_iff_conj nth_take)

lemma std_swap_quiet_live:
  assumes blk: "block_at w p = Some blk" and "i < length blk" and "j < length blk"
    and "blk ! i \<noteq> None" and "blk ! j \<noteq> None" and "nothing_throws w"
  obtains w' blk' where "std_swap T p i j w = Return () w'" and "nothing_throws w'"
    and "block_at w' p = Some blk'" and "keeps_live blk blk'"
proof -
  from std_swap_quiet [OF assms] obtain w' where
    sw: "std_swap T p i j w = Return () w'" and q: "nothing_throws w'" by blast
  from std_swap_keeps_live [OF disjI1 [OF sw] blk] obtain blk' where
    "block_at w' = (block_at w)(p := Some blk')" "keeps_live blk blk'" by blast
  then have "block_at w' p = Some blk'" by simp
  with sw q show thesis using \<open>keeps_live blk blk'\<close> by (rule that)
qed

lemma erase_loop_quiet:
  "block_at w p = Some blk \<Longrightarrow> 0 \<le> i \<Longrightarrow> i \<le> stop \<Longrightarrow> 0 < cnt \<Longrightarrow>
   stop + cnt \<le> int (length blk) \<Longrightarrow> None \<notin> set (take (nat (stop + cnt)) blk) \<Longrightarrow>
   nothing_throws w \<Longrightarrow>
   \<exists>w'. erase_loop T p i stop cnt w = Return () w' \<and> nothing_throws w'"
proof (induction "nat (stop - i)" arbitrary: i w blk)
  case 0
  then have "i = stop" by simp
  with "0.prems"(7) show ?case by (simp add: erase_loop_same)
next
  case (Suc k)
  from Suc.hyps(2) have lt: "i < stop" by simp
  with Suc.prems have a: "nat i < length blk" and b: "nat (i + cnt) < length blk"
    by simp_all
  from lt Suc.prems have "nat i < nat (stop + cnt)" "nat (i + cnt) < nat (stop + cnt)"
    by simp_all
  with Suc.prems(6) a b have live: "blk ! nat i \<noteq> None" "blk ! nat (i + cnt) \<noteq> None"
    by (simp_all add: take_live)
  from std_swap_quiet_live [OF Suc.prems(1) a b live Suc.prems(7)] obtain w1 blk' where
    sw: "std_swap T p (nat i) (nat (i + cnt)) w = Return () w1" and q1: "nothing_throws w1"
    and b1: "block_at w1 p = Some blk'" and kl: "keeps_live blk blk'" by blast
  from kl have len: "length blk' = length blk" by (simp add: keeps_live_def)
  from Suc.hyps(2) have k: "k = nat (stop - (i + 1))" by simp
  from Suc.hyps(1) [OF k b1 _ _ Suc.prems(4) _ keeps_live_take [OF kl Suc.prems(6)] q1]
    lt Suc.prems(2,5) len
  obtain w' where "erase_loop T p (i + 1) stop cnt w1 = Return () w'" "nothing_throws w'"
    by auto
  moreover have "\<not> (i < 0 \<or> cnt \<le> 0 \<or> int (block_len w p) \<le> i + cnt)"
    using Suc.prems(1,2,4) b by (simp add: block_len_def)
  ultimately show ?case using lt sw by (subst erase_loop.simps) simp
qed

lemma pop_back_returns:
  assumes inv: "vec_inv T v w" and pos: "0 < size_m v"
  shows "\<exists>v' w'. pop_back v w = Return () (v', w') \<and> faults w' = faults w"
proof -
  from inv pos have d0: "data_m v \<noteq> 0" by (auto dest: vec_inv_null)
  from vec_inv_block [OF inv d0] obtain blk where
    blk: "block_at w (data_m v) = Some blk" "size_m v \<le> length blk"
      "None \<notin> set (take (size_m v) blk)" by blast
  from inv have "size_m v < SIZE_MOD" by (simp add: vec_inv_def)
  with pos have dec: "(size_m v + SIZE_MOD - 1) mod SIZE_MOD = size_m v - 1"
    by (simp add: mod_if)
  from blk(2,3) pos have "size_m v - 1 < length blk" "blk ! (size_m v - 1) \<noteq> None"
    by (simp_all add: take_live)
  with blk(1) dec show ?thesis
    by (simp add: pop_back_def Let_def destroy_at_def faults_set_block)
qed

lemma pop_back_n_returns:
  "vec_inv T v w \<Longrightarrow> k \<le> size_m v \<Longrightarrow>
   \<exists>v' w'. pop_back_n k v w = Return () (v', w') \<and> faults w' = faults w"
proof (induction k arbitrary: v w)
  case 0
  then show ?case by simp
next
  case (Suc k)
  from pop_back_returns [OF Suc.prems(1)] Suc.prems(2) obtain v1 w1 where
    pb: "pop_back v w = Return () (v1, w1)" and f1: "faults w1 = faults w" by auto
  note r = pop_back_Return [OF pb Suc.prems(1)]
  from r(2) Suc.prems(2) have "k \<le> size_m v1" by simp
  from Suc.IH [OF r(3) this] obtain v' w' where
    "pop_back_n k v1 w1 = Return () (v', w')" "faults w' = faults w1" by blast
  with pb f1 show ?case by simp
qed

lemma erase_quiet:
  assumes inv: "vec_inv T v w" and fl: "f < l" and ls: "l \<le> size_m v"
    and q: "nothing_throws w"
  shows "\<exists>it v' w'. erase T (data_m v, int f) (data_m v, int l) v w = Return it (v', w') \<and>
    nothing_throws w'"
proof -
  from inv fl ls have d0: "data_m v \<noteq> 0" by (auto dest: vec_inv_null)
  from vec_inv_block [OF inv d0] obtain blk where
    blk: "block_at w (data_m v) = Some blk" "size_m v \<le> length blk"
      "None \<notin> set (take (size_m v) blk)" by blast
  let ?stop = "int (size_m v) - int (l - f)" and ?cnt = "int (l - f)"
  have e: "nat (?stop + ?cnt) = size_m v" by simp
  from erase_loop_quiet [OF blk(1), of "int f" ?stop ?cnt T] fl ls blk(2,3) q e
  obtain w1 where el: "erase_loop T (data_m v) (int f) ?stop ?cnt w = Return () w1"
    and q1: "nothing_throws w1" by auto
  from erase_loop_keeps_live [OF disjI1 [OF el] blk(1)] obtain blk' where
    b1: "block_at w1 = (block_at w)(data_m v := Some blk')" and kl: "keeps_live blk blk'"
    and h1: "length (heap w1) = length (heap w)" by blast
  note inv1 = vec_inv_keeps_live(1) [OF inv blk(1) b1 kl h1]
  from ls have "l - f \<le> size_m v" by simp
  from pop_back_n_returns [OF inv1 this] obtain v2 w2 where
    pn: "pop_back_n (l - f) v w1 = Return () (v2, w2)" and f2: "faults w2 = faults w1"
    by blast
  from f2 q1 have "nothing_throws w2" by (simp add: nothing_throws_def)
  with el pn show ?thesis by (simp add: erase_cases [OF fl])
qed

lemma std_swap_defined:
  assumes "block_at w p = Some blk" and "i < length blk" and "j < length blk"
    and "blk ! i \<noteq> None" and "blk ! j \<noteq> None"
  shows "std_swap T p i j w \<noteq> Undefined"
  using assms by (simp add: std_swap_def split: prod.splits bool.splits)

lemma erase_loop_defined:
  "block_at w p = Some blk \<Longrightarrow> 0 \<le> i \<Longrightarrow> i \<le> stop \<Longrightarrow> 0 < cnt \<Longrightarrow>
   stop + cnt \<le> int (length blk) \<Longrightarrow> None \<notin> set (take (nat (stop + cnt)) blk) \<Longrightarrow>
   erase_loop T p i stop cnt w \<noteq> Undefined"
proof (induction "nat (stop - i)" arbitrary: i w blk)
  case 0
  then have "i = stop" by simp
  then show ?case by (simp add: erase_loop_same)
next
  case (Suc k)
  from Suc.hyps(2) have lt: "i < stop" by simp
  with Suc.prems have a: "nat i < length blk" and b: "nat (i + cnt) < length blk"
    by simp_all
  from lt Suc.prems have "nat i < nat (stop + cnt)" "nat (i + cnt) < nat (stop + cnt)"
    by simp_all
  with Suc.prems(6) a b have live: "blk ! nat i \<noteq> None" "blk ! nat (i + cnt) \<noteq> None"
    by (simp_all add: take_live)
  have guard: "\<not> (i < 0 \<or> cnt \<le> 0 \<or> int (block_len w p) \<le> i + cnt)"
    using Suc.prems(1,2,4) b by (simp add: block_len_def)
  show ?case
  proof (cases "std_swap T p (nat i) (nat (i + cnt)) w")
    case (Return u w1)
    from std_swap_keeps_live [OF disjI1 [OF Return] Suc.prems(1)] obtain blk' where
      "block_at w1 = (block_at w)(p := Some blk')" and kl: "keeps_live blk blk'" by blast
    then have b1: "block_at w1 p = Some blk'" by simp
    from kl have len: "length blk' = length blk" by (simp add: keeps_live_def)
    from Suc.hyps(2) have k: "k = nat (stop - (i + 1))" by simp
    from Suc.hyps(1) [OF k b1 _ _ Suc.prems(4) _ keeps_live_take [OF kl Suc.prems(6)]]
      lt Suc.prems(2,5) len
    have "erase_loop T p (i + 1) stop cnt w1 \<noteq> Undefined" by simp
    with guard lt Return show ?thesis by (subst erase_loop.simps) simp
  next
    case (Throw e w1)
    with guard lt show ?thesis by (subst erase_loop.simps) simp
  next
    case Undefined
    with std_swap_defined [OF Suc.prems(1) a b live] show ?thesis by simp
  qed
qed

lemma erase_defined:
  assumes inv: "vec_inv T v w" and fl: "f < l" and ls: "l \<le> size_m v"
  shows "erase T (data_m v, int f) (data_m v, int l) v w \<noteq> Undefined"
proof -
  from inv fl ls have d0: "data_m v \<noteq> 0" by (auto dest: vec_inv_null)
  from vec_inv_block [OF inv d0] obtain blk where
    blk: "block_at w (data_m v) = Some blk" "size_m v \<le> length blk"
      "None \<notin> set (take (size_m v) blk)" by blast
  let ?stop = "int (size_m v) - int (l - f)" and ?cnt = "int (l - f)"
  have e: "nat (?stop + ?cnt) = size_m v" by simp
  from erase_loop_defined [OF blk(1), of "int f" ?stop ?cnt T] fl ls blk(2,3) e
  have el: "erase_loop T (data_m v) (int f) ?stop ?cnt w \<noteq> Undefined" by auto
  show ?thesis
  proof (cases "erase_loop T (data_m v) (int f) ?stop ?cnt w")
    case (Return u w1)
    from erase_loop_keeps_live [OF disjI1 [OF Return] blk(1)] obtain blk' where
      b1: "block_at w1 = (block_at w)(data_m v := Some blk')" and kl: "keeps_live blk blk'"
      and h1: "length (heap w1) = length (heap w)" by blast
    note inv1 = vec_inv_keeps_live(1) [OF inv blk(1) b1 kl h1]
    from ls have "l - f \<le> size_m v" by simp
    from pop_back_n_returns [OF inv1 this] obtain v2 w2 where
      "pop_back_n (l - f) v w1 = Return () (v2, w2)" by blast
    with Return show ?thesis by (simp add: erase_cases [OF fl])
  next
    case (Throw e w1)
    then show ?thesis by (simp add: erase_cases [OF fl])
  next
    case Undefined
    with el show ?thesis by simp
  qed
qed

section \<open>Evaluation on concrete states\<close>

lemma copy_loop_numeral:
  "copy_loop T src dst i (numeral k) w = copy_loop T src dst i (Suc (pred_numeral k)) w"
  by (simp add: numeral_eq_Suc)

lemma destroy_elements_numeral:
  "destroy_elements p (numeral k) w = destroy_elements p (Suc (pred_numeral k)) w"
  by (simp add: numeral_eq_Suc)

lemma pop_back_n_numeral:
  "pop_back_n (numeral k) v w = pop_back_n (Suc (pred_numeral k)) v w"
  by (simp add: numeral_eq_Suc)

lemma replicate_numeral_Cons:
  "replicate (numeral k) x = x # replicate (pred_numeral k) x"
  by (simp add: numeral_eq_Suc)

lemmas eval_defs = replicate_numeral_Cons T_ex_def v_ex_def w_ex_def default_ctor_def
  shrink_to_fit_def new_buffer_def allocate_data_def operator_new_def next_fault_def
  copy_elements_def load_def placement_new_def elem_op_def block_at_def set_block_def
  operator_delete_def destroy_at_def SIZE_MOD_def copy_loop_numeral destroy_elements_numeral
  pop_back_n_numeral reserve_def push_back_def copy_local_def calc_new_capacity_def
  insert_vector_def erase_def erase1_def ptr_diff_def begin_it_def end_it_def std_swap_def
  insert_loop.simps erase_loop.simps block_len_def pop_back_def elems_def index_def
  copy_ctor_def operator_assign_def swap_def dtor_def clear_def memcpy_def vec_inv_def

lemma vec_inv_ex: "vec_inv T_ex v_ex w_ex"
  by (simp add: eval_defs)

section \<open>The claims\<close>

text \<open>
  C1. The strong guarantee of \<^verbatim>\<open>push_back\<close> with reallocation, at the last of the
  points where a copy can throw. The container is empty with capacity \<open>0\<close>, so
  \<open>size = capacity\<close>; the copy into \<^verbatim>\<open>tmp\<close> and the allocation succeed, and the
  construction of the new element from \<^verbatim>\<open>tmp\<close> throws. \<^verbatim>\<open>new_buffer\<close> has already
  replaced the buffer by then: the exception leaves the container with
  capacity \<open>1\<close> and a buffer, where it had capacity \<open>0\<close> and none.
\<close>

theorem push_back_final_copy_throws:
  "push_back T_ex (5::nat) default_ctor \<lparr>heap = [], faults = [False, False, True]\<rparr> =
     Throw Copy_failed
       (\<lparr>data_m = 1, size_m = 0, capacity_m = 1\<rparr>, \<lparr>heap = [Some [None]], faults = []\<rparr>) \<and>
   size_m default_ctor = capacity_m default_ctor \<and>
   capacity_m \<lparr>data_m = 1, size_m = 0, capacity_m = 1\<rparr> \<noteq> capacity_m default_ctor"
  by (simp add: eval_defs)

text \<open>
  C2. Invariant I2 in every reachable state: from a state without containers,
  after any sequence of operations of the public interface (default and copy
  construction, copy assignment, \<^verbatim>\<open>push_back\<close>, \<^verbatim>\<open>pop_back\<close>, \<^verbatim>\<open>reserve\<close>,
  \<^verbatim>\<open>shrink_to_fit\<close>, \<^verbatim>\<open>clear\<close>, \<^verbatim>\<open>swap\<close>, \<^verbatim>\<open>insert\<close>, \<^verbatim>\<open>erase\<close>) that return
  or throw, every container has \<open>size \<le> capacity\<close>, and a null buffer when its
  capacity is \<open>0\<close>.
\<close>

theorem invariant_I2_reachable:
  assumes "0 < sizeof_T T" and "reachable T (vs, w)" and "v \<in> set vs"
  shows "invariant_I2 v"
proof -
  from assms(3) obtain i where i: "i < length vs" "vs ! i = v"
    by (auto simp: in_set_conv_nth)
  from reachable_sys_inv [OF assms(2,1)] i have "vec_inv T v w"
    by (auto simp: sys_inv_def)
  then show ?thesis by (rule vec_inv_I2)
qed

theorem invariant_I2_reachable_witness:
  "0 < sizeof_T T_ex \<and>
   reachable T_ex ([\<lparr>data_m = 1, size_m = 1, capacity_m = 1\<rparr>],
     \<lparr>heap = [Some [Some (7::nat)]], faults = []\<rparr>) \<and>
   \<lparr>data_m = 1, size_m = 1, capacity_m = 1\<rparr> \<in> set [\<lparr>data_m = 1, size_m = 1, capacity_m = 1\<rparr>] \<and>
   invariant_I2 \<lparr>data_m = 1, size_m = 1, capacity_m = 1\<rparr>"
proof -
  let ?w0 = "\<lparr>heap = [], faults = []\<rparr> :: nat world"
  have s: "0 < sizeof_T T_ex" by (simp add: T_ex_def)
  have r0: "reachable T_ex ([], ?w0)" by (rule reachable.start)
  have e1: "exec T_ex Construct ([], ?w0) = Return () ([default_ctor], ?w0)" by simp
  have r1: "reachable T_ex ([default_ctor], ?w0)"
    using reachable.returns [OF r0 _ e1] by simp
  have e2: "exec T_ex (Member 0 (Push_back 7)) ([default_ctor], ?w0) =
      Return () ([\<lparr>data_m = 1, size_m = 1, capacity_m = 1\<rparr>],
        \<lparr>heap = [Some [Some (7::nat)]], faults = []\<rparr>)"
    by (simp add: eval_defs)
  have r2: "reachable T_ex ([\<lparr>data_m = 1, size_m = 1, capacity_m = 1\<rparr>],
     \<lparr>heap = [Some [Some (7::nat)]], faults = []\<rparr>)"
    using reachable.returns [OF r1 _ e2] by simp
  have m: "\<lparr>data_m = 1, size_m = 1, capacity_m = 1\<rparr> \<in> set [\<lparr>data_m = 1, size_m = 1, capacity_m = 1\<rparr>]"
    by simp
  from invariant_I2_reachable [OF s r2 m] s r2 m show ?thesis by simp
qed

text \<open>
  C3. After \<open>n\<close> calls of \<^verbatim>\<open>push_back\<close> on a default-constructed container that
  all return, the size is \<open>n\<close>; the capacity is \<open>0\<close> for \<open>n = 0\<close> and otherwise
  the least power of two that is at least \<open>n\<close>; and each call of the sequence
  changes the capacity exactly when it finds \<open>size = capacity\<close>.
\<close>

theorem push_back_doubling:
  assumes sz: "0 < sizeof_T T"
    and seq: "push_back_seq T xs default_ctor w = Return u (v, w')"
  shows "size_m v = length xs \<and>
    (length xs = 0 \<longrightarrow> capacity_m v = 0) \<and>
    (0 < length xs \<longrightarrow>
       (\<exists>k. capacity_m v = 2 ^ k \<and> length xs \<le> 2 ^ k \<and>
          (\<forall>j. length xs \<le> 2 ^ j \<longrightarrow> (2::nat) ^ k \<le> 2 ^ j))) \<and>
    (\<forall>ys x zs. xs = ys @ x # zs \<longrightarrow>
       (\<exists>v1 w1 v2 w2. push_back_seq T ys default_ctor w = Return () (v1, w1) \<and>
          push_back T x v1 w1 = Return () (v2, w2) \<and> size_m v1 = length ys \<and>
          (capacity_m v2 \<noteq> capacity_m v1 \<longleftrightarrow> size_m v1 = capacity_m v1)))"
proof -
  have inv0: "vec_inv T default_ctor w"
    using sz by (intro vec_inv_nullI) (simp_all add: default_ctor_def)
  have s0: "(size_m default_ctor = 0 \<and> capacity_m default_ctor = 0) \<or>
     (\<exists>k. capacity_m default_ctor = 2 ^ k \<and> size_m default_ctor \<le> capacity_m default_ctor \<and>
        capacity_m default_ctor < 2 * size_m default_ctor)"
    by (simp add: default_ctor_def)
  note r = push_back_seq_inv [OF seq inv0 s0]
  have size: "size_m v = length xs" using r by (simp add: default_ctor_def)
  have zero: "length xs = 0 \<longrightarrow> capacity_m v = 0" using r size by auto
  have pos: "0 < length xs \<longrightarrow>
       (\<exists>k. capacity_m v = 2 ^ k \<and> length xs \<le> 2 ^ k \<and>
          (\<forall>j. length xs \<le> 2 ^ j \<longrightarrow> (2::nat) ^ k \<le> 2 ^ j))"
  proof
    assume "0 < length xs"
    with r size obtain k where k: "capacity_m v = 2 ^ k" "length xs \<le> 2 ^ k"
      "(2::nat) ^ k < 2 * length xs" by auto
    then have "\<forall>j. length xs \<le> 2 ^ j \<longrightarrow> (2::nat) ^ k \<le> 2 ^ j"
      using pow2_least [of "length xs" k] by blast
    with k show "\<exists>k. capacity_m v = 2 ^ k \<and> length xs \<le> 2 ^ k \<and>
          (\<forall>j. length xs \<le> 2 ^ j \<longrightarrow> (2::nat) ^ k \<le> 2 ^ j)" by blast
  qed
  have each: "\<exists>v1 w1 v2 w2. push_back_seq T ys default_ctor w = Return () (v1, w1) \<and>
          push_back T x v1 w1 = Return () (v2, w2) \<and> size_m v1 = length ys \<and>
          (capacity_m v2 \<noteq> capacity_m v1 \<longleftrightarrow> size_m v1 = capacity_m v1)"
    if xs: "xs = ys @ x # zs" for ys x zs
  proof -
    from push_back_seq_split [OF seq [unfolded xs]] obtain v1 w1 v2 w2 where
      a: "push_back_seq T ys default_ctor w = Return () (v1, w1)"
      and b: "push_back T x v1 w1 = Return () (v2, w2)" by blast
    note i = push_back_seq_inv [OF a inv0 s0]
    from i have i1: "vec_inv T v1 w1" and s1: "size_m v1 = length ys"
      by (simp_all add: default_ctor_def)
    from push_back_capacity_changes [OF b i1] a b s1 show ?thesis by blast
  qed
  from size zero pos each show ?thesis by blast
qed


theorem push_back_doubling_witness:
  "0 < sizeof_T T_ex \<and>
   push_back_seq T_ex [1, 2, 3 :: nat] default_ctor \<lparr>heap = [], faults = []\<rparr> =
     Return () (\<lparr>data_m = 3, size_m = 3, capacity_m = 4\<rparr>,
       \<lparr>heap = [None, None, Some [Some 1, Some 2, Some 3, None]], faults = []\<rparr>) \<and>
   size_m \<lparr>data_m = 3, size_m = 3, capacity_m = 4\<rparr> = length [1, 2, 3 :: nat] \<and>
   capacity_m \<lparr>data_m = 3, size_m = 3, capacity_m = 4\<rparr> = 2 ^ 2"
proof -
  have s: "0 < sizeof_T T_ex" by (simp add: T_ex_def)
  have r: "push_back_seq T_ex [1, 2, 3 :: nat] default_ctor \<lparr>heap = [], faults = []\<rparr> =
     Return () (\<lparr>data_m = 3, size_m = 3, capacity_m = 4\<rparr>,
       \<lparr>heap = [None, None, Some [Some 1, Some 2, Some 3, None]], faults = []\<rparr>)"
    by (simp add: eval_defs)
  from push_back_doubling [OF s r] s r show ?thesis by simp
qed



text \<open>
  C5. \<^verbatim>\<open>erase(first, last)\<close>. With \<open>last - first \<le> 0\<close>, for every container, it
  returns the position of \<open>last\<close> and changes nothing. With \<open>first < last \<le> size\<close>
  the call has no undefined behaviour; it returns when no failure is scheduled
  (a swap of two elements is all that can throw); and whenever it returns, the
  elements are those before \<open>first\<close> followed by those from \<open>last\<close> on, in their
  order, the size is smaller by \<open>last - first\<close>, the iterator returned is at
  position \<open>first\<close>, and the call was the loop of swaps followed by
  \<open>last - first\<close> calls of \<^verbatim>\<open>pop_back\<close>.
\<close>

theorem erase_range:
  "(b \<le> a \<longrightarrow> erase T (data_m v, a) (data_m v, b) v w = Return (data_m v, b) (v, w)) \<and>
   (vec_inv T v w \<and> f < l \<and> l \<le> size_m v \<longrightarrow>
      erase T (data_m v, int f) (data_m v, int l) v w \<noteq> Undefined \<and>
      (nothing_throws w \<longrightarrow>
         (\<exists>it v' w'. erase T (data_m v, int f) (data_m v, int l) v w = Return it (v', w'))) \<and>
      (\<forall>it v' w'. erase T (data_m v, int f) (data_m v, int l) v w = Return it (v', w') \<longrightarrow>
         elems v' w' = take f (elems v w) @ drop l (elems v w) \<and>
         size_m v' = size_m v - (l - f) \<and> it = (data_m v', int f) \<and>
         (\<exists>w1. erase_loop T (data_m v) (int f) (int (size_m v) - int (l - f)) (int (l - f)) w =
                 Return () w1 \<and>
               pop_back_n (l - f) v w1 = Return () (v', w'))))"
proof (intro conjI impI)
  assume "b \<le> a"
  then show "erase T (data_m v, a) (data_m v, b) v w = Return (data_m v, b) (v, w)"
    by (rule erase_noop)
next
  assume "vec_inv T v w \<and> f < l \<and> l \<le> size_m v"
  then show "erase T (data_m v, int f) (data_m v, int l) v w \<noteq> Undefined"
    by (simp add: erase_defined)
next
  assume a: "vec_inv T v w \<and> f < l \<and> l \<le> size_m v" and q: "nothing_throws w"
  from a have inv: "vec_inv T v w" and fl: "f < l" and ls: "l \<le> size_m v" by simp_all
  from erase_quiet [OF inv fl ls q]
  show "\<exists>it v' w'. erase T (data_m v, int f) (data_m v, int l) v w = Return it (v', w')"
    by blast
next
  assume a: "vec_inv T v w \<and> f < l \<and> l \<le> size_m v"
  show "\<forall>it v' w'. erase T (data_m v, int f) (data_m v, int l) v w = Return it (v', w') \<longrightarrow>
         elems v' w' = take f (elems v w) @ drop l (elems v w) \<and>
         size_m v' = size_m v - (l - f) \<and> it = (data_m v', int f) \<and>
         (\<exists>w1. erase_loop T (data_m v) (int f) (int (size_m v) - int (l - f)) (int (l - f)) w =
                 Return () w1 \<and>
               pop_back_n (l - f) v w1 = Return () (v', w'))"
  proof (intro allI impI)
    fix it v' w'
    assume er: "erase T (data_m v, int f) (data_m v, int l) v w = Return it (v', w')"
    from a have inv: "vec_inv T v w" and fl: "f < l" and ls: "l \<le> size_m v" by simp_all
    note r = erase_Return [OF er inv fl ls]
    have "size_m v' = size_m v - (l - f)" using r(3) by simp
    with r(4,5,6) show "elems v' w' = take f (elems v w) @ drop l (elems v w) \<and>
         size_m v' = size_m v - (l - f) \<and> it = (data_m v', int f) \<and>
         (\<exists>w1. erase_loop T (data_m v) (int f) (int (size_m v) - int (l - f)) (int (l - f)) w =
                 Return () w1 \<and>
               pop_back_n (l - f) v w1 = Return () (v', w'))" by blast
  qed
qed

theorem erase_range_witness:
  "vec_inv T_ex v_ex w_ex \<and> (0::nat) < 1 \<and> 1 \<le> size_m v_ex \<and> nothing_throws w_ex \<and>
   erase T_ex (data_m v_ex, int 0) (data_m v_ex, int 1) v_ex w_ex =
     Return (1, 0) (\<lparr>data_m = 1, size_m = 1, capacity_m = 4\<rparr>,
       \<lparr>heap = [Some [Some 20, None, None, None]], faults = []\<rparr>) \<and>
   elems \<lparr>data_m = 1, size_m = 1, capacity_m = 4\<rparr>
       \<lparr>heap = [Some [Some 20, None, None, None]], faults = []\<rparr> =
     take 0 (elems v_ex w_ex) @ drop 1 (elems v_ex w_ex) \<and>
   size_m \<lparr>data_m = 1, size_m = 1, capacity_m = 4\<rparr> = size_m v_ex - (1 - 0) \<and>
   erase T_ex (data_m v_ex, 1) (data_m v_ex, 1) v_ex w_ex = Return (data_m v_ex, 1) (v_ex, w_ex) \<and>
   erase T_ex (data_m default_ctor, 0) (data_m default_ctor, 0) default_ctor
       (\<lparr>heap = [], faults = []\<rparr> :: nat world) =
     Return (data_m default_ctor, 0) (default_ctor, \<lparr>heap = [], faults = []\<rparr>)"
proof -
  have l: "(1::nat) \<le> size_m v_ex" by (simp add: v_ex_def)
  have q: "nothing_throws w_ex" by (simp add: nothing_throws_def w_ex_def)
  have r: "erase T_ex (data_m v_ex, int 0) (data_m v_ex, int 1) v_ex w_ex =
     Return (1, 0) (\<lparr>data_m = 1, size_m = 1, capacity_m = 4\<rparr>,
       \<lparr>heap = [Some [Some 20, None, None, None]], faults = []\<rparr>)"
    by (simp add: eval_defs)
  have z: "(0::nat) < 1" by simp
  have p: "vec_inv T_ex v_ex w_ex \<and> (0::nat) < 1 \<and> 1 \<le> size_m v_ex"
    using vec_inv_ex l by simp
  note t1 = erase_range [where a = 1 and b = 1 and T = T_ex and v = v_ex and w = w_ex
      and f = 0 and l = 1]
  note t2 = erase_range [where a = 0 and b = 0 and T = T_ex and v = default_ctor
      and w = "\<lparr>heap = [], faults = []\<rparr> :: nat world" and f = 0 and l = 1]
  note c1 = t1 [THEN conjunct1, THEN mp, OF order_refl]
  note e1 = t2 [THEN conjunct1, THEN mp, OF order_refl]
  note post = t1 [THEN conjunct2, THEN mp, OF p, THEN conjunct2, THEN conjunct2,
      THEN spec, THEN spec, THEN spec, THEN mp, OF r]
  note post1 = post [THEN conjunct1]
  note post2 = post [THEN conjunct2, THEN conjunct1]
  show ?thesis by (intro conjI) (rule vec_inv_ex z l q r post1 post2 c1 e1)+
qed





text \<open>
  C8. \<^verbatim>\<open>reserve(n)\<close> for an \<open>n\<close> with \<open>n * sizeof(T) \<ge> 2^64\<close>. \<^verbatim>\<open>allocate_data\<close>
  multiplies in \<^verbatim>\<open>size_t\<close>, so the block it gets is shorter than \<open>n\<close> elements.
  On an empty container \<^verbatim>\<open>reserve(2^63)\<close> with elements of four bytes returns
  with capacity \<open>2^63\<close> and a buffer of no slots, and the \<^verbatim>\<open>push_back\<close> that
  follows writes outside the buffer. On a container of size \<open>2\<close> and capacity
  \<open>4\<close>, \<^verbatim>\<open>reserve(2^62 + 1)\<close> gets a block of one slot and copies two elements
  into it, which is undefined behaviour. So after \<^verbatim>\<open>reserve(n)\<close> the capacity need
  not be a number of slots that the buffer has.
\<close>

theorem reserve_overflow:
  "reserve T_ex (2 ^ 63) default_ctor (\<lparr>heap = [], faults = []\<rparr> :: nat world) =
     Return () (\<lparr>data_m = 1, size_m = 0, capacity_m = 2 ^ 63\<rparr>,
       \<lparr>heap = [Some []], faults = []\<rparr>) \<and>
   block_len (\<lparr>heap = [Some []], faults = []\<rparr> :: nat world) 1 = 0 \<and>
   push_back T_ex (5::nat) \<lparr>data_m = 1, size_m = 0, capacity_m = 2 ^ 63\<rparr>
     \<lparr>heap = [Some []], faults = []\<rparr> = Undefined \<and>
   vec_inv T_ex v_ex w_ex \<and> capacity_m v_ex < 2 ^ 62 + 1 \<and> 2 ^ 62 + 1 < SIZE_MOD \<and>
   reserve T_ex (2 ^ 62 + 1) v_ex w_ex = Undefined"
  by (simp add: eval_defs)

text \<open>
  C9. \<^verbatim>\<open>shrink_to_fit\<close>: a call that returns leaves the capacity equal to the size,
  and the size and the element sequence as they were; with \<open>size = capacity\<close> it
  changes nothing at all.
\<close>

theorem shrink_to_fit_exact:
  assumes "vec_inv T v w" and "shrink_to_fit T v w = Return u (v', w')"
  shows "capacity_m v' = size_m v \<and> size_m v' = size_m v \<and> elems v' w' = elems v w \<and>
    (size_m v = capacity_m v \<longrightarrow> v' = v \<and> w' = w)"
  using shrink_to_fit_Return [OF assms(2,1)] by simp

theorem shrink_to_fit_exact_witness:
  "vec_inv T_ex v_ex w_ex \<and>
   shrink_to_fit T_ex v_ex w_ex =
     Return () (\<lparr>data_m = 2, size_m = 2, capacity_m = 2\<rparr>,
       \<lparr>heap = [None, Some [Some 10, Some 20]], faults = []\<rparr>) \<and>
   size_m v_ex < capacity_m v_ex \<and>
   capacity_m \<lparr>data_m = 2, size_m = 2, capacity_m = 2\<rparr> = size_m v_ex \<and>
   elems \<lparr>data_m = 2, size_m = 2, capacity_m = 2\<rparr>
     \<lparr>heap = [None, Some [Some 10, Some 20]], faults = []\<rparr> = elems v_ex w_ex"
proof -
  have r: "shrink_to_fit T_ex v_ex w_ex =
     Return () (\<lparr>data_m = 2, size_m = 2, capacity_m = 2\<rparr>,
       \<lparr>heap = [None, Some [Some 10, Some 20]], faults = []\<rparr>)"
    by (simp add: eval_defs)
  have c: "size_m v_ex < capacity_m v_ex" by (simp add: v_ex_def)
  from shrink_to_fit_exact [OF vec_inv_ex r] vec_inv_ex r c show ?thesis by simp
qed



end
